theory Spec2Isabelle
  imports Main "HOL-Library.Word"
begin

section \<open>Machine integers, bytes and errors\<close>

text \<open>
  The skip list of the IResearch index (skip\_list.cpp): a writer that builds the levels
  of a skip structure while a postings list is written, and a reader that loads the
  levels and seeks through them.

  Bytes are 8-bit words and document ids are 64-bit words. The values of type
  \<^verbatim>\<open>size_t\<close> and \<^verbatim>\<open>uint64_t\<close> (counts, steps, byte offsets) are natural numbers; where
  the C++ arithmetic on them can wrap around, the wrap-around is written out with
  \<open>u64\<close> and \<open>sub64\<close>. Cursors into a byte sequence and lengths of byte sequences are
  natural numbers below \<open>2 ^ 64\<close> for every file the code can open.
\<close>

type_synonym byte_type = "8 word"

type_synonym doc_id_t = "64 word"

definition u64 :: "nat \<Rightarrow> nat" where
  "u64 x = x mod 2 ^ 64"

definition sub64 :: "nat \<Rightarrow> nat \<Rightarrow> nat" where
  "sub64 a b = (a + (2 ^ 64 - b mod 2 ^ 64)) mod 2 ^ 64"

text \<open>\<^verbatim>\<open>const size_t UNDEFINED = integer_traits<size_t>::const_max\<close>\<close>

definition UNDEFINED :: nat where
  "UNDEFINED = 2 ^ 64 - 1"

text \<open>
  Modelled from the spec: the sentinels of the document-id domain
  (\<^verbatim>\<open>type_limits<type_t::doc_id_t>\<close>, declared outside the sources at hand): the
  "invalid/uninitialized" sentinel is the least id and the "end of list" sentinel
  is the greatest one.
\<close>

definition doc_invalid :: doc_id_t where
  "doc_invalid = 0"

definition doc_eof :: doc_id_t where
  "doc_eof = - 1"

text \<open>
  Every way a call can end other than by returning: a failed \<^verbatim>\<open>assert\<close> (which also
  stands for the access to the first or last element of an empty vector that follows
  it), a division or remainder by zero, the \<^verbatim>\<open>index_error\<close> thrown for a corrupted
  index, and a read past the end of the underlying byte sequence.
\<close>

datatype error = Assertion | DivByZero | IndexError | IoError

section \<open>Variable-length integers\<close>

text \<open>
  Modelled from the spec: the variable-length integer encoding of the stream abstraction
  (\<^verbatim>\<open>write_vint\<close>, \<^verbatim>\<open>write_vlong\<close>, \<^verbatim>\<open>read_vint\<close>, \<^verbatim>\<open>read_vlong\<close> of store/store\_utils.hpp and
  the data input and output classes, outside the sources at hand): seven bits per byte,
  least significant group first, the high bit of a byte set when another byte follows.
\<close>

fun vencode :: "nat \<Rightarrow> byte_type list" where
  "vencode n =
     (if n < 128 then [word_of_nat n]
      else word_of_nat (128 + n mod 128) # vencode (n div 128))"

declare vencode.simps [simp del]

fun vdecode :: "byte_type list \<Rightarrow> (nat \<times> nat) option" where
  "vdecode [] = None"
| "vdecode (b # bs) =
     (if unat b < 128 then Some (unat b, 1)
      else (case vdecode bs of
              None \<Rightarrow> None
            | Some (v, k) \<Rightarrow> Some (unat b - 128 + 128 * v, Suc k)))"

definition write_vlong :: "nat \<Rightarrow> byte_type list" where
  "write_vlong v = vencode (v mod 2 ^ 64)"

definition write_vint :: "nat \<Rightarrow> byte_type list" where
  "write_vint v = vencode (v mod 2 ^ 32)"

section \<open>The skip writer\<close>

text \<open>
  Modelled from the spec: \<^verbatim>\<open>iresearch::math::log\<close> (utils/math\_utils.hpp, outside the
  sources at hand), the integer logarithm \<open>log_base x\<close> rounded down. Where the logarithm
  is not defined (\<open>base < 2\<close> or \<open>x = 0\<close>) the model gives 0; no theorem below depends on
  the value of \<open>math_log\<close> but the worked example with base 2.
\<close>

fun math_log :: "nat \<Rightarrow> nat \<Rightarrow> nat" where
  "math_log x base = (if base < 2 \<or> x < base then 0 else 1 + math_log (x div base) base)"

declare math_log.simps [simp del]

text \<open>
  \<^verbatim>\<open>max_levels(skip_0, skip_n, count)\<close>: the division \<^verbatim>\<open>count/skip_0\<close> is only evaluated
  when \<^verbatim>\<open>skip_0 < count\<close>.
\<close>

definition max_levels :: "nat \<Rightarrow> nat \<Rightarrow> nat \<Rightarrow> error + nat" where
  "max_levels skip_0 skip_n count =
     (if skip_0 < count then
        (if skip_0 = 0 then Inl DivByZero
         else Inr (1 + math_log (count div skip_0) skip_n))
      else Inr 0)"

text \<open>
  A level of the writer is a \<^verbatim>\<open>memory_output\<close>: a growable byte buffer whose
  \<^verbatim>\<open>file_pointer()\<close> is the number of bytes written so far. \<open>w_levels\<close> lists the buffers
  from level 0 (the finest) upwards, as \<^verbatim>\<open>levels_\<close> does.

  The write callback \<^verbatim>\<open>write_(level, stream)\<close> is a closure of the caller: what it appends
  to the stream depends on the caller's state \<open>'e\<close> at the time of the call (the
  current document, say). \<open>w_write w env n\<close> is the byte sequence the callback appends
  to the stream of level \<open>n\<close> when the caller's state is \<open>env\<close>.
\<close>

record 'e skip_writer =
  w_skip_0 :: nat
  w_skip_n :: nat
  w_levels :: "byte_type list list"
  w_write :: "'e \<Rightarrow> nat \<Rightarrow> byte_type list"

text \<open>\<^verbatim>\<open>skip_writer::skip_writer(skip_0, skip_n)\<close>: no levels yet, the callback is \<^verbatim>\<open>nop\<close>.\<close>

definition skip_writer_new :: "nat \<Rightarrow> nat \<Rightarrow> 'e skip_writer" where
  "skip_writer_new skip_0 skip_n =
     \<lparr>w_skip_0 = skip_0, w_skip_n = skip_n, w_levels = [], w_write = (\<lambda>env n. [])\<rparr>"

text \<open>\<^verbatim>\<open>std::vector::resize\<close>: keeps the leading elements, appends empty buffers.\<close>

definition resize :: "nat \<Rightarrow> byte_type list list \<Rightarrow> byte_type list list" where
  "resize n ls = take n ls @ replicate (n - length ls) []"

definition writer_prepare ::
  "'e skip_writer \<Rightarrow> nat \<Rightarrow> nat \<Rightarrow> ('e \<Rightarrow> nat \<Rightarrow> byte_type list) \<Rightarrow> error + 'e skip_writer"
where
  "writer_prepare w max_lvls count write =
     (let max_lvls1 = max 1 max_lvls in
      case max_levels (w_skip_0 w) (w_skip_n w) count of
        Inl e \<Rightarrow> Inl e
      | Inr m \<Rightarrow> Inr (w\<lparr>w_levels := resize (min max_lvls1 m) (w_levels w), w_write := write\<rparr>))"

text \<open>
  The loop of \<^verbatim>\<open>skip\<close> over the levels from 1 upwards. \<open>count\<close> is the running count
  already divided for the level at the head of the list, \<open>num\<close> the number of the level
  written last, \<open>child\<close> the offset recorded in the level below.
\<close>

fun skip_levels ::
  "(nat \<Rightarrow> byte_type list) \<Rightarrow> nat \<Rightarrow> nat \<Rightarrow> nat \<Rightarrow> nat \<Rightarrow> byte_type list list
     \<Rightarrow> byte_type list list"
where
  "skip_levels wr skip_n count num child [] = []"
| "skip_levels wr skip_n count num child (l # ls) =
     (if count mod skip_n = 0 then
        (let l1 = l @ wr (num + 1);
             next_child = length l1;
             l2 = l1 @ write_vlong child
         in l2 # skip_levels wr skip_n (count div skip_n) (num + 1) next_child ls)
      else l # ls)"

text \<open>
  \<^verbatim>\<open>skip_writer::skip(count)\<close>. The loop condition evaluates \<^verbatim>\<open>count % skip_n_\<close> before it
  looks at the level, so a multiplier of zero traps even with a single level.
\<close>

definition skip :: "'e skip_writer \<Rightarrow> 'e \<Rightarrow> nat \<Rightarrow> error + 'e skip_writer" where
  "skip w env count =
     (case w_levels w of
        [] \<Rightarrow> Inl Assertion
      | l0 # ls \<Rightarrow>
          if w_skip_0 w = 0 then Inl DivByZero
          else if count mod w_skip_0 w \<noteq> 0 then Inr w
          else if w_skip_n w = 0 then Inl DivByZero
          else
            (let s0 = l0 @ w_write w env 0;
                 child = length s0
             in Inr (w\<lparr>w_levels :=
                  s0 # skip_levels (w_write w env) (w_skip_n w) (count div w_skip_0 w) 0 child ls\<rparr>)))"

text \<open>
  \<^verbatim>\<open>skip_writer::flush(out)\<close>: the levels from the coarsest filled one down to level 0,
  each as its length and its bytes, after the number of these levels. The output stream
  is the byte sequence written so far.
\<close>

definition flush :: "'e skip_writer \<Rightarrow> byte_type list \<Rightarrow> error + byte_type list" where
  "flush w out =
     (let ls = dropWhile (\<lambda>l. length l = 0) (rev (w_levels w)) in
      if [] \<in> set ls then Inl Assertion
      else Inr (out @ write_vint (length ls) @
                concat (map (\<lambda>l. write_vlong (length l) @ l) ls)))"

definition writer_reset :: "'e skip_writer \<Rightarrow> 'e skip_writer" where
  "writer_reset w = w\<lparr>w_levels := map (\<lambda>l. []) (w_levels w)\<rparr>"

section \<open>Input streams\<close>

text \<open>
  An \<^verbatim>\<open>index_input\<close> is a read cursor over a byte sequence. \<^verbatim>\<open>dup()\<close> and \<^verbatim>\<open>reopen()\<close> give
  an independent cursor over the same bytes at the same position: in the model, a copy
  of the record. The stream operations are modelled from the spec (the stream
  abstraction is outside the sources at hand): \<^verbatim>\<open>read_byte\<close> fails at the end of the
  bytes, \<^verbatim>\<open>read_bytes\<close> gives as many bytes as are left, up to the number asked for,
  \<^verbatim>\<open>seek\<close> only moves the cursor.
\<close>

record index_input =
  data :: "byte_type list"
  ptr :: nat

definition read_byte :: "index_input \<Rightarrow> error + byte_type \<times> index_input" where
  "read_byte s =
     (if ptr s < length (data s) then Inr (data s ! ptr s, s\<lparr>ptr := ptr s + 1\<rparr>)
      else Inl IoError)"

definition read_bytes :: "index_input \<Rightarrow> nat \<Rightarrow> byte_type list \<times> index_input" where
  "read_bytes s count =
     (let bs = take count (drop (ptr s) (data s)) in (bs, s\<lparr>ptr := ptr s + length bs\<rparr>))"

definition read_vlong :: "index_input \<Rightarrow> error + nat \<times> index_input" where
  "read_vlong s =
     (case vdecode (drop (ptr s) (data s)) of
        None \<Rightarrow> Inl IoError
      | Some (v, k) \<Rightarrow> Inr (v mod 2 ^ 64, s\<lparr>ptr := ptr s + k\<rparr>))"

definition read_vint :: "index_input \<Rightarrow> error + nat \<times> index_input" where
  "read_vint s =
     (case vdecode (drop (ptr s) (data s)) of
        None \<Rightarrow> Inl IoError
      | Some (v, k) \<Rightarrow> Inr (v mod 2 ^ 32, s\<lparr>ptr := ptr s + k\<rparr>))"

section \<open>The skip reader\<close>

text \<open>
  A level of the reader: its own cursor \<open>stream\<close> and the window \<open>[lbegin, lend)\<close> of the
  level in the underlying bytes (the fields \<^verbatim>\<open>begin\<close> and \<^verbatim>\<open>end\<close>), the offset \<open>child\<close> into
  the next finer level, the \<open>step\<close> of the level, the number \<open>skipped\<close> of entries
  passed and the document \<open>doc\<close> read last.
\<close>

record level =
  stream :: index_input
  lbegin :: nat
  lend :: nat
  child :: nat
  step :: nat
  skipped :: nat
  doc :: doc_id_t

text \<open>
  \<^verbatim>\<open>skip_reader::level::level(stream, step, begin, end)\<close>. Modelled from the spec: the
  default member initialisers of \<^verbatim>\<open>child\<close>, \<^verbatim>\<open>skipped\<close> and \<^verbatim>\<open>doc\<close> (in skip\_list.hpp,
  outside the sources at hand) are the values \<^verbatim>\<open>reset()\<close> restores: zero, zero and the
  invalid document.
\<close>

definition level_new :: "index_input \<Rightarrow> nat \<Rightarrow> nat \<Rightarrow> nat \<Rightarrow> level" where
  "level_new s stp b e =
     \<lparr>stream = s, lbegin = b, lend = e, child = 0, step = stp, skipped = 0, doc = doc_invalid\<rparr>"

text \<open>The \<^verbatim>\<open>index_input\<close> interface of a level, as a read callback sees it.\<close>

definition level_file_pointer :: "level \<Rightarrow> nat" where
  "level_file_pointer l = sub64 (ptr (stream l)) (lbegin l)"

definition level_length :: "level \<Rightarrow> nat" where
  "level_length l = sub64 (lend l) (lbegin l)"

definition level_eof :: "level \<Rightarrow> bool" where
  "level_eof l = (ptr (stream l) \<ge> lend l)"

definition level_seek :: "level \<Rightarrow> nat \<Rightarrow> level" where
  "level_seek l pos = l\<lparr>stream := (stream l)\<lparr>ptr := u64 (lbegin l + pos)\<rparr>\<rparr>"

definition level_read_byte :: "level \<Rightarrow> error + byte_type \<times> level" where
  "level_read_byte l =
     (case read_byte (stream l) of
        Inl e \<Rightarrow> Inl e
      | Inr (b, s) \<Rightarrow> Inr (b, l\<lparr>stream := s\<rparr>))"

definition level_read_bytes :: "level \<Rightarrow> nat \<Rightarrow> byte_type list \<times> level" where
  "level_read_bytes l count =
     (case read_bytes (stream l) (min (sub64 (lend l) (level_file_pointer l)) count) of
        (bs, s) \<Rightarrow> (bs, l\<lparr>stream := s\<rparr>))"

text \<open>
  The read callback \<^verbatim>\<open>read_(level_index, level)\<close> sees a level through its
  \<^verbatim>\<open>index_input\<close> interface: it returns a document id (or fails in a read) and may move
  the cursor of the level, nothing else. In the model it is a function of the level index
  and the level that returns the document and the new cursor.
\<close>

type_synonym read_f = "nat \<Rightarrow> level \<Rightarrow> error + doc_id_t \<times> nat"

record skip_reader =
  r_skip_0 :: nat
  r_skip_n :: nat
  r_levels :: "level list"
  r_read :: read_f

text \<open>
  \<^verbatim>\<open>skip_reader::skip_reader(skip_0, skip_n)\<close>: no levels, and the callback \<^verbatim>\<open>nop\<close>, which
  answers the end of the list and leaves the cursor.
\<close>

definition skip_reader_new :: "nat \<Rightarrow> nat \<Rightarrow> skip_reader" where
  "skip_reader_new skip_0 skip_n =
     \<lparr>r_skip_0 = skip_0, r_skip_n = skip_n, r_levels = [],
      r_read = (\<lambda>n l. Inr (doc_eof, ptr (stream l)))\<rparr>"

text \<open>\<^verbatim>\<open>skip_reader::read_skip(level)\<close>; \<open>n\<close> is the distance of the level from the last one.\<close>

definition read_skip :: "read_f \<Rightarrow> nat \<Rightarrow> level \<Rightarrow> error + level" where
  "read_skip rd n l =
     (case rd n l of
        Inl e \<Rightarrow> Inl e
      | Inr (d, p) \<Rightarrow>
          (let l1 = l\<lparr>stream := (stream l)\<lparr>ptr := p\<rparr>\<rparr> in
           if d \<noteq> doc_eof \<and> child l1 \<noteq> UNDEFINED then
             (case read_vlong (stream l1) of
                Inl e \<Rightarrow> Inl e
              | Inr (c, s) \<Rightarrow>
                  Inr (l1\<lparr>stream := s, child := c, doc := d,
                          skipped := u64 (skipped l1 + step l1)\<rparr>))
           else Inr (l1\<lparr>doc := d, skipped := u64 (skipped l1 + step l1)\<rparr>)))"

text \<open>\<^verbatim>\<open>skip_reader::seek_skip(level, ptr, skipped)\<close>\<close>

definition seek_skip :: "level \<Rightarrow> nat \<Rightarrow> nat \<Rightarrow> error + level" where
  "seek_skip l p sk =
     (let absolute_ptr = u64 (lbegin l + p) in
      if absolute_ptr > ptr (stream l) then
        (let l1 = l\<lparr>stream := (stream l)\<lparr>ptr := absolute_ptr\<rparr>, skipped := sk\<rparr> in
         if child l1 \<noteq> UNDEFINED then
           (case read_vlong (stream l1) of
              Inl e \<Rightarrow> Inl e
            | Inr (c, s) \<Rightarrow> Inr (l1\<lparr>stream := s, child := c\<rparr>))
         else Inr l1)
      else Inr l)"

text \<open>
  \<^verbatim>\<open>std::upper_bound(first, last, target, comp)\<close> with \<^verbatim>\<open>comp(target, level)\<close> being
  \<^verbatim>\<open>target < level.doc\<close>: the binary search of the standard library, over the documents
  of the levels in the order of the iteration; \<open>first\<close> and the result are positions in
  that sequence.
\<close>

function upper_bound :: "doc_id_t \<Rightarrow> doc_id_t list \<Rightarrow> nat \<Rightarrow> nat \<Rightarrow> nat" where
  "upper_bound target ds first len =
     (if len = 0 then first
      else
        (let half = len div 2;
             middle = first + half
         in if target < ds ! middle then upper_bound target ds first half
            else upper_bound target ds (middle + 1) (len - half - 1)))"
  by pat_completeness auto
termination
  by (relation "measure (\<lambda>(target, ds, first, len). len)") auto

declare upper_bound.simps [simp del]

text \<open>
  \<^verbatim>\<open>skip_reader::find_level(target)\<close>. The levels are iterated in reverse, from the last
  (finest) one; the result is the index in \<^verbatim>\<open>levels_\<close> of the level found. The assertion
  demands that the documents of the levels are sorted in that order.
\<close>

definition find_level :: "level list \<Rightarrow> doc_id_t \<Rightarrow> error + nat" where
  "find_level ls target =
     (let ds = map doc (rev ls) in
      if \<not> sorted ds then Inl Assertion
      else
        (let lv = upper_bound target ds 0 (length ds) in
         if lv = length ds then Inr 0
         else
           (let lv1 = (if lv \<noteq> 0 then lv - 1 else lv)
            in Inr (length ls - 1 - lv1))))"

text \<open>
  The inner loop of \<^verbatim>\<open>seek\<close>:
  \<^verbatim>\<open>for (; level.doc < target; read_skip(level)) { child = level.child; }\<close>.
  It runs for as long as the callback answers documents below the target, so it need
  not return: not returning is \<open>None\<close>.
\<close>

partial_function (option) read_until ::
  "read_f \<Rightarrow> nat \<Rightarrow> doc_id_t \<Rightarrow> level \<Rightarrow> nat \<Rightarrow> (error + level \<times> nat) option"
where
  "read_until rd n target l child0 =
     (if doc l < target then
        (case read_skip rd n l of
           Inl e \<Rightarrow> Some (Inl e)
         | Inr l1 \<Rightarrow> read_until rd n target l1 (child l))
      else Some (Inr (l, child0)))"

text \<open>
  The body of the \<^verbatim>\<open>for_each\<close> of \<^verbatim>\<open>seek\<close> on one level, with the captured variables
  \<^verbatim>\<open>child\<close> and \<^verbatim>\<open>skipped\<close> passed in and out.
\<close>

definition seek_level ::
  "read_f \<Rightarrow> nat \<Rightarrow> doc_id_t \<Rightarrow> level \<Rightarrow> nat \<Rightarrow> nat \<Rightarrow> (error + level \<times> nat \<times> nat) option"
where
  "seek_level rd n target l child0 skipped0 =
     (if doc l < target then
        (case seek_skip l child0 skipped0 of
           Inl e \<Rightarrow> Some (Inl e)
         | Inr l1 \<Rightarrow>
             (case read_skip rd n l1 of
                Inl e \<Rightarrow> Some (Inl e)
              | Inr l2 \<Rightarrow>
                  (case read_until rd n target l2 (child l1) of
                     None \<Rightarrow> None
                   | Some (Inl e) \<Rightarrow> Some (Inl e)
                   | Some (Inr (l3, child1)) \<Rightarrow>
                       Some (Inr (l3, child1, sub64 (skipped l3) (step l3))))))
      else Some (Inr (l, child0, skipped0)))"

fun seek_levels ::
  "read_f \<Rightarrow> doc_id_t \<Rightarrow> level list \<Rightarrow> nat \<Rightarrow> nat \<Rightarrow> (error + level list) option"
where
  "seek_levels rd target [] child0 skipped0 = Some (Inr [])"
| "seek_levels rd target (l # ls) child0 skipped0 =
     (case seek_level rd (length ls) target l child0 skipped0 of
        None \<Rightarrow> None
      | Some (Inl e) \<Rightarrow> Some (Inl e)
      | Some (Inr (l1, child1, skipped1)) \<Rightarrow>
          (case seek_levels rd target ls child1 skipped1 of
             None \<Rightarrow> None
           | Some (Inl e) \<Rightarrow> Some (Inl e)
           | Some (Inr ls1) \<Rightarrow> Some (Inr (l1 # ls1))))"

text \<open>\<^verbatim>\<open>skip_reader::seek(target)\<close>: the skip count and the reader after the call.\<close>

definition seek :: "skip_reader \<Rightarrow> doc_id_t \<Rightarrow> (error + nat \<times> skip_reader) option" where
  "seek r target =
     (if r_levels r = [] then Some (Inl Assertion)
      else
        (case find_level (r_levels r) target of
           Inl e \<Rightarrow> Some (Inl e)
         | Inr i \<Rightarrow>
             (case seek_levels (r_read r) target (drop i (r_levels r)) 0 0 of
                None \<Rightarrow> None
              | Some (Inl e) \<Rightarrow> Some (Inl e)
              | Some (Inr ls1) \<Rightarrow>
                  (let levels1 = take i (r_levels r) @ ls1;
                       skipped1 = skipped (last levels1)
                   in Some (Inr (if skipped1 \<noteq> 0 then sub64 skipped1 (r_skip_0 r) else 0,
                                 r\<lparr>r_levels := levels1\<rparr>))))))"

text \<open>\<^verbatim>\<open>skip_reader::reset()\<close>\<close>

definition level_reset :: "level \<Rightarrow> level" where
  "level_reset l =
     l\<lparr>stream := (stream l)\<lparr>ptr := lbegin l\<rparr>,
       child := (if child l \<noteq> UNDEFINED then 0 else child l),
       skipped := 0,
       doc := doc_invalid\<rparr>"

definition reader_reset :: "skip_reader \<Rightarrow> skip_reader" where
  "reader_reset r = r\<lparr>r_levels := map level_reset (r_levels r)\<rparr>"

text \<open>
  \<^verbatim>\<open>skip_reader::load_level(levels, stream, step)\<close>: the stream handed in is a cursor of
  its own; the level keeps it, at the first byte of the level.
\<close>

definition load_level :: "level list \<Rightarrow> index_input \<Rightarrow> nat \<Rightarrow> error + level list" where
  "load_level levels s stp =
     (case read_vlong s of
        Inl e \<Rightarrow> Inl e
      | Inr (len, s1) \<Rightarrow>
          if len = 0 then Inl IndexError
          else
            (let b = ptr s1;
                 e = u64 (b + len)
             in Inr (levels @ [level_new s1 stp b e])))"

text \<open>
  The loop of \<^verbatim>\<open>prepare\<close> over the levels from the coarsest one down to level 1; the
  first argument is \<^verbatim>\<open>skip_n_\<close>, the second the number of levels still to load here.
\<close>

fun load_levels ::
  "nat \<Rightarrow> nat \<Rightarrow> nat \<Rightarrow> index_input \<Rightarrow> level list \<Rightarrow> error + level list \<times> index_input"
where
  "load_levels skip_n 0 stp inp levels = Inr (levels, inp)"
| "load_levels skip_n (Suc k) stp inp levels =
     (case load_level levels inp stp of
        Inl e \<Rightarrow> Inl e
      | Inr levels1 \<Rightarrow>
          (let inp1 = inp\<lparr>ptr := lend (last levels1)\<rparr> in
           if skip_n = 0 then Inl DivByZero
           else load_levels skip_n k (stp div skip_n) inp1 levels1))"

text \<open>
  The power \<^verbatim>\<open>size_t(pow(skip_n_, n))\<close> is computed in double precision. \<open>round_double\<close> is the
  conversion of a natural number to a double and back: exact below \<open>2 ^ 53\<close>, rounded to 53
  significant bits (to nearest, ties to even) from there on. The \<^verbatim>\<open>pow\<close> of the C library is
  taken as correctly rounded. The conversion to \<^verbatim>\<open>size_t\<close> of a double that does not fit 64 bits
  is undefined in C++; the model gives 0 there, and no theorem below depends on that value.
\<close>

fun bit_length :: "nat \<Rightarrow> nat" where
  "bit_length n = (if n = 0 then 0 else Suc (bit_length (n div 2)))"

declare bit_length.simps [simp del]

definition round_double :: "nat \<Rightarrow> nat" where
  "round_double x =
     (if x < 2 ^ 53 then x
      else
        (let k = bit_length x - 53;
             q = x div 2 ^ k;
             r = x mod 2 ^ k
         in (if 2 ^ k < 2 * r \<or> (2 * r = 2 ^ k \<and> odd q) then q + 1 else q) * 2 ^ k))"

definition pow_size_t :: "nat \<Rightarrow> nat \<Rightarrow> nat" where
  "pow_size_t b e =
     (let x = round_double (round_double b ^ e) in if x < 2 ^ 64 then x else 0)"

text \<open>
  \<^verbatim>\<open>skip_reader::prepare(in, read)\<close>. The step of the coarsest level is
  \<^verbatim>\<open>skip_0_ * size_t(pow(skip_n_, max_levels - 1))\<close>, the product in 64 bits. With a level
  count of zero the levels the reader holds are left as they are.
\<close>

definition reader_prepare :: "skip_reader \<Rightarrow> index_input \<Rightarrow> read_f \<Rightarrow> error + skip_reader" where
  "reader_prepare r inp rd =
     (case read_vint inp of
        Inl e \<Rightarrow> Inl e
      | Inr (max_lvls, in1) \<Rightarrow>
          if max_lvls \<noteq> 0 then
            (let stp = u64 (r_skip_0 r * pow_size_t (r_skip_n r) (max_lvls - 1)) in
             case load_levels (r_skip_n r) (max_lvls - 1) stp in1 [] of
               Inl e \<Rightarrow> Inl e
             | Inr (levels, in2) \<Rightarrow>
                 (case load_level levels in2 (r_skip_0 r) of
                    Inl e \<Rightarrow> Inl e
                  | Inr levels1 \<Rightarrow>
                      Inr (r\<lparr>r_levels := butlast levels1 @ [(last levels1)\<lparr>child := UNDEFINED\<rparr>],
                             r_read := rd\<rparr>)))
          else Inr (r\<lparr>r_read := rd\<rparr>))"

section \<open>The callbacks and the caller of the round trip\<close>

text \<open>
  Modelled from the spec: the callbacks of a postings list whose skip payload is the
  current document id, and the postings-list writer that owns the skip writer (both are
  the caller's code, outside the sources at hand). The write callback serialises the
  current document id as a variable-length integer on every level. The read callback
  answers the "end of list" sentinel when the stream of the level is exhausted and the
  document id it reads otherwise.
\<close>

definition write_doc :: "doc_id_t \<Rightarrow> nat \<Rightarrow> byte_type list" where
  "write_doc d n = write_vlong (unat d)"

definition read_doc :: read_f where
  "read_doc n l =
     (if level_eof l then Inr (doc_eof, ptr (stream l))
      else
        (case read_vlong (stream l) of
           Inl e \<Rightarrow> Inl e
         | Inr (v, s) \<Rightarrow> Inr (word_of_nat v, ptr s)))"

text \<open>
  Modelled from the spec: "\<^verbatim>\<open>skip(currentEntryCount)\<close> is invoked by the owning
  postings-list writer after each entry is appended". \<open>write_entries w ds count\<close> appends
  the documents \<open>ds\<close> after \<open>count\<close> earlier entries, calling \<^verbatim>\<open>skip\<close> with the running
  count after each of them; the current document is the one just appended.
\<close>

fun write_entries ::
  "doc_id_t skip_writer \<Rightarrow> doc_id_t list \<Rightarrow> nat \<Rightarrow> error + doc_id_t skip_writer"
where
  "write_entries w [] count = Inr w"
| "write_entries w (d # ds) count =
     (case skip w d (Suc count) of
        Inl e \<Rightarrow> Inl e
      | Inr w1 \<Rightarrow> write_entries w1 ds (Suc count))"

text \<open>
  The whole round trip: a writer with \<open>skip_0\<close> and \<open>skip_n\<close> prepared for the documents
  \<open>ds\<close> with \<open>requested\<close> levels, fed with the documents and flushed to an empty output;
  a reader with the same parameters prepared on the bytes flushed.
\<close>

definition write_skip_list ::
  "nat \<Rightarrow> nat \<Rightarrow> nat \<Rightarrow> doc_id_t list \<Rightarrow> error + byte_type list"
where
  "write_skip_list skip_0 skip_n requested ds =
     (case writer_prepare (skip_writer_new skip_0 skip_n) requested (length ds) write_doc of
        Inl e \<Rightarrow> Inl e
      | Inr w \<Rightarrow>
          (case write_entries w ds 0 of
             Inl e \<Rightarrow> Inl e
           | Inr w1 \<Rightarrow> flush w1 []))"

definition load_skip_list :: "nat \<Rightarrow> nat \<Rightarrow> byte_type list \<Rightarrow> error + skip_reader" where
  "load_skip_list skip_0 skip_n bytes =
     reader_prepare (skip_reader_new skip_0 skip_n) \<lparr>data = bytes, ptr = 0\<rparr> read_doc"

section \<open>Sequences of calls and a worked example\<close>

text \<open>A sequence of \<^verbatim>\<open>seek\<close> calls on one reader: the skip counts returned and the last state.\<close>

fun seeks :: "skip_reader \<Rightarrow> doc_id_t list \<Rightarrow> (error + nat list \<times> skip_reader) option" where
  "seeks r [] = Some (Inr ([], r))"
| "seeks r (t # ts) =
     (case seek r t of
        None \<Rightarrow> None
      | Some (Inl e) \<Rightarrow> Some (Inl e)
      | Some (Inr (s, r1)) \<Rightarrow>
          (case seeks r1 ts of
             None \<Rightarrow> None
           | Some (Inl e) \<Rightarrow> Some (Inl e)
           | Some (Inr (ss, r2)) \<Rightarrow> Some (Inr (s # ss, r2))))"

text \<open>A read callback that never moves the cursor of the level backward.\<close>

definition forward_read :: "read_f \<Rightarrow> bool" where
  "forward_read rd = (\<forall>n l d p. rd n l = Inr (d, p) \<longrightarrow> ptr (stream l) \<le> p)"

text \<open>
  The example of the spec: \<open>skip_0 = 2\<close>, \<open>skip_n = 2\<close> and the 16 documents 0 to 15. The
  bytes are what the writer flushes for them, the reader is what \<^verbatim>\<open>prepare\<close> loads from
  the bytes (both are theorems below).
\<close>

definition example_docs :: "doc_id_t list" where
  "example_docs = [0, 1, 2, 3, 4, 5, 6, 7, 8, 9, 10, 11, 12, 13, 14, 15]"

definition example_bytes :: "byte_type list" where
  "example_bytes =
     [4, 2, 15, 3, 4, 7, 3, 15, 7, 8, 3, 2, 7, 4, 11, 6, 15, 8, 8, 1, 3, 5, 7, 9, 11, 13, 15]"

definition example_level ::
  "nat \<Rightarrow> nat \<Rightarrow> nat \<Rightarrow> nat \<Rightarrow> nat \<Rightarrow> nat \<Rightarrow> doc_id_t \<Rightarrow> level"
where
  "example_level p b e c stp sk d =
     \<lparr>stream = \<lparr>data = example_bytes, ptr = p\<rparr>, lbegin = b, lend = e, child = c,
      step = stp, skipped = sk, doc = d\<rparr>"

definition example_reader :: skip_reader where
  "example_reader =
     \<lparr>r_skip_0 = 2, r_skip_n = 2,
      r_levels =
        [example_level 2 2 4 0 16 0 0,
         example_level 5 5 9 0 8 0 0,
         example_level 10 10 18 0 4 0 0,
         example_level 19 19 27 UNDEFINED 2 0 0],
      r_read = read_doc\<rparr>"

text \<open>The example reader after \<^verbatim>\<open>seek(2)\<close> and after \<^verbatim>\<open>seek(10)\<close>.\<close>

definition example_reader_2 :: skip_reader where
  "example_reader_2 =
     example_reader\<lparr>r_levels :=
        [example_level 4 2 4 3 16 16 15,
         example_level 7 5 9 3 8 8 7,
         example_level 12 10 18 2 4 4 3,
         example_level 21 19 27 UNDEFINED 2 4 3]\<rparr>"

definition example_reader_10 :: skip_reader where
  "example_reader_10 =
     example_reader\<lparr>r_levels :=
        [example_level 4 2 4 3 16 16 15,
         example_level 9 5 9 7 8 16 15,
         example_level 16 10 18 6 4 12 11,
         example_level 25 19 27 UNDEFINED 2 12 11]\<rparr>"

text \<open>
  A skip list of two levels whose only entry on level 1 carries the child offset
  \<open>2 ^ 64 - 1\<close> (ten bytes), the value of \<^verbatim>\<open>UNDEFINED\<close>; level 0 holds the documents 1
  and 3.
\<close>

definition crafted_bytes :: "byte_type list" where
  "crafted_bytes = [2, 11, 3, 255, 255, 255, 255, 255, 255, 255, 255, 255, 1, 2, 1, 3]"

definition crafted_level ::
  "nat \<Rightarrow> nat \<Rightarrow> nat \<Rightarrow> nat \<Rightarrow> nat \<Rightarrow> nat \<Rightarrow> doc_id_t \<Rightarrow> level"
where
  "crafted_level p b e c stp sk d =
     \<lparr>stream = \<lparr>data = crafted_bytes, ptr = p\<rparr>, lbegin = b, lend = e, child = c,
      step = stp, skipped = sk, doc = d\<rparr>"

definition crafted_reader :: skip_reader where
  "crafted_reader =
     \<lparr>r_skip_0 = 2, r_skip_n = 2,
      r_levels = [crafted_level 2 2 13 0 4 0 0, crafted_level 14 14 16 UNDEFINED 2 0 0],
      r_read = read_doc\<rparr>"

text \<open>The crafted reader after \<^verbatim>\<open>seek(2)\<close>.\<close>

definition crafted_reader_2 :: skip_reader where
  "crafted_reader_2 =
     crafted_reader\<lparr>r_levels :=
        [crafted_level 13 2 13 UNDEFINED 4 4 3, crafted_level 16 14 16 UNDEFINED 2 4 3]\<rparr>"

definition example_levels :: "level list" where
  "example_levels = r_levels example_reader_2"

text \<open>
  A sequence of \<^verbatim>\<open>skip\<close> calls on one writer, each with the state of the caller (which
  decides what the write callback appends) and the count passed.
\<close>

fun skips :: "'e skip_writer \<Rightarrow> ('e \<times> nat) list \<Rightarrow> error + 'e skip_writer" where
  "skips w [] = Inr w"
| "skips w (c # cs) =
     (case skip w (fst c) (snd c) of
        Inl e \<Rightarrow> Inl e
      | Inr w1 \<Rightarrow> skips w1 cs)"

text \<open>The buffers of the levels: below a level that is filled, every level is filled.\<close>

definition prefix_filled :: "byte_type list list \<Rightarrow> bool" where
  "prefix_filled ls = (\<forall>i j. i \<le> j \<and> j < length ls \<and> ls ! j \<noteq> [] \<longrightarrow> ls ! i \<noteq> [])"

text \<open>
  The levels \<^verbatim>\<open>prepare\<close> loads when the bytes \<open>d\<close> hold, from the position \<open>p\<close> on, the
  level buffers \<open>ls\<close> one after the other, each after its length: the windows of the
  levels, their cursors at the first byte of each, the steps from \<open>stp\<close> downwards.
\<close>

fun layout :: "byte_type list \<Rightarrow> nat \<Rightarrow> nat \<Rightarrow> nat \<Rightarrow> byte_type list list \<Rightarrow> level list" where
  "layout d p sn stp [] = []"
| "layout d p sn stp (l # ls) =
     (let b = p + length (write_vlong (length l)) in
      level_new \<lparr>data = d, ptr = b\<rparr> stp b (b + length l)
        # layout d (b + length l) sn (stp div sn) ls)"

text \<open>
  Two writers as \<^verbatim>\<open>prepare(4, 16, write)\<close> leaves a new writer with \<open>skip_0 = 2\<close> and
  \<open>skip_n = 2\<close>: one with the callback that writes the current document, one with the
  default callback \<^verbatim>\<open>nop\<close>, which writes nothing.
\<close>

definition example_writer :: "doc_id_t skip_writer" where
  "example_writer = (skip_writer_new 2 2)\<lparr>w_levels := [[], [], [], []], w_write := write_doc\<rparr>"

definition nop_writer :: "unit skip_writer" where
  "nop_writer = (skip_writer_new 2 2)\<lparr>w_levels := [[], [], [], []], w_write := (\<lambda>env n. [])\<rparr>"

section \<open>The layout of a written skip list\<close>

text \<open>
  The notions the proof of the round trip is stated in. Level \<open>j\<close> of a skip list over the
  documents \<open>ids\<close> has an entry at every count that is a multiple of its step
  \<open>skip_0 * skip_n ^ j\<close>: the document appended last (the payload the callback of a
  document list writes) and, on the levels above level 0, the child offset into the level
  below. \<open>enc\<close> is the byte form of an entry, \<open>offset\<close> the number of bytes of the first
  \<open>k\<close> entries, \<open>level_buffer\<close> the buffer of a level when \<open>n\<close> documents are written.
\<close>

definition level_step :: "nat \<Rightarrow> nat \<Rightarrow> nat \<Rightarrow> nat" where
  "level_step s0 sn j = s0 * sn ^ j"

definition enc :: "bool \<Rightarrow> doc_id_t \<times> nat \<Rightarrow> byte_type list" where
  "enc hc e = write_vlong (unat (fst e)) @ (if hc then write_vlong (snd e) else [])"

definition offset :: "bool \<Rightarrow> (doc_id_t \<times> nat) list \<Rightarrow> nat \<Rightarrow> nat" where
  "offset hc es k = length (concat (map (enc hc) (take k es)))"

primrec entries :: "nat \<Rightarrow> nat \<Rightarrow> doc_id_t list \<Rightarrow> nat \<Rightarrow> (doc_id_t \<times> nat) list" where
  "entries s0 sn ids 0 = map (\<lambda>k. (ids ! (Suc k * s0 - 1), 0)) [0..<length ids div s0]"
| "entries s0 sn ids (Suc j) =
     map (\<lambda>k. (ids ! (Suc k * level_step s0 sn (Suc j) - 1),
               offset (0 < j) (entries s0 sn ids j) (Suc k * sn - 1)
                 + length (write_vlong (unat (ids ! (Suc k * level_step s0 sn (Suc j) - 1))))))
       [0..<length ids div level_step s0 sn (Suc j)]"

definition level_buffer :: "nat \<Rightarrow> nat \<Rightarrow> doc_id_t list \<Rightarrow> nat \<Rightarrow> nat \<Rightarrow> byte_type list" where
  "level_buffer s0 sn ids j n =
     concat (map (enc (0 < j)) (take (n div level_step s0 sn j) (entries s0 sn ids j)))"

text \<open>
  A level of the reader whose window holds the entries \<open>es\<close> (with child offsets when
  \<open>hc\<close>), small enough for the 64-bit arithmetic of the code, and a level whose cursor
  stands behind the first \<open>k\<close> entries with the matching count.
\<close>

definition wf_level :: "bool \<Rightarrow> (doc_id_t \<times> nat) list \<Rightarrow> level \<Rightarrow> bool" where
  "wf_level hc es l =
     ((child l \<noteq> UNDEFINED) = hc
      \<and> (\<exists>rest. drop (lbegin l) (data (stream l)) = concat (map (enc hc) es) @ rest)
      \<and> lend l = lbegin l + offset hc es (length es)
      \<and> lend l < 2 ^ 64
      \<and> Suc (length es) * step l < 2 ^ 64
      \<and> list_all (\<lambda>e. snd e < UNDEFINED) es)"

definition at_entry :: "bool \<Rightarrow> (doc_id_t \<times> nat) list \<Rightarrow> level \<Rightarrow> nat \<Rightarrow> bool" where
  "at_entry hc es l k =
     (k \<le> length es \<and> ptr (stream l) = lbegin l + offset hc es k \<and> skipped l = k * step l)"

declare entries.simps [simp del]

text \<open>
  \<^verbatim>\<open>prepare\<close> of a new writer for \<open>n\<close> entries (more than \<open>skip_0\<close>) with \<open>requested\<close> levels
  allocates \<open>level_count\<close> buffers.
\<close>

definition level_count :: "nat \<Rightarrow> nat \<Rightarrow> nat \<Rightarrow> nat \<Rightarrow> nat" where
  "level_count s0 sn requested n = min (max 1 requested) (1 + math_log (n div s0) sn)"

text \<open>
  A level as \<^verbatim>\<open>prepare\<close> of the reader leaves it when level \<open>j\<close> (counted from the finest) of
  the skip list over \<open>ids\<close> lies in its window: nothing read yet.
\<close>

definition fresh_level :: "nat \<Rightarrow> nat \<Rightarrow> doc_id_t list \<Rightarrow> nat \<Rightarrow> level \<Rightarrow> bool" where
  "fresh_level s0 sn ids j l =
     (wf_level (0 < j) (entries s0 sn ids j) l
      \<and> ptr (stream l) = lbegin l \<and> skipped l = 0 \<and> doc l = doc_invalid
      \<and> (0 < j \<longrightarrow> child l = 0) \<and> step l = level_step s0 sn j)"

section \<open>Properties of the writer\<close>

lemma max_levels_zero_iff:
  "0 < skip_0 \<Longrightarrow> max_levels skip_0 skip_n count = Inr m \<Longrightarrow> (m = 0) = (count \<le> skip_0)"
  by (auto simp: max_levels_def split: if_splits)

lemma length_resize: "length (resize n ls) = n"
  by (simp add: resize_def)

text \<open>
  C2. \<^verbatim>\<open>prepare\<close> first raises the requested number of levels to at least 1 and then takes
  the minimum with the computed maximum: when \<open>0 < skip_0 < count\<close> it allocates exactly
  \<open>min (max 1 requested) computed\<close> level buffers, and that number is at least 1.
\<close>

theorem writer_prepare_level_count:
  assumes "0 < w_skip_0 w" and "w_skip_0 w < count"
  shows "\<exists>m w'. max_levels (w_skip_0 w) (w_skip_n w) count = Inr m
           \<and> writer_prepare w requested count write = Inr w'
           \<and> length (w_levels w') = min (max 1 requested) m
           \<and> 1 \<le> length (w_levels w')"
  using assms by (simp add: writer_prepare_def max_levels_def length_resize)

theorem writer_prepare_level_count_witness:
  "\<exists>m w'. max_levels 2 2 16 = Inr m
     \<and> writer_prepare (skip_writer_new 2 2 :: unit skip_writer) 0 16 (\<lambda>env n. []) = Inr w'
     \<and> length (w_levels w') = min (max 1 0) m
     \<and> 1 \<le> length (w_levels w')"
  using writer_prepare_level_count [of "skip_writer_new 2 2 :: unit skip_writer" 16 0 "\<lambda>env n. []"]
  by (simp add: skip_writer_new_def)

text \<open>
  The claim as stated fails twice: a request for 0 levels over 16 entries allocates 1
  buffer and not \<open>min 0 4 = 0\<close>, and over 2 entries with \<open>skip_0 = 2\<close> no buffer at all is
  allocated.
\<close>

theorem writer_prepare_level_count_counterexample:
  "\<not> (\<forall>requested count. \<forall>w'.
        writer_prepare (skip_writer_new 2 2 :: unit skip_writer) requested count (\<lambda>env n. []) = Inr w'
        \<longrightarrow> (\<exists>m. max_levels 2 2 count = Inr m \<and> length (w_levels w') = min requested m)
            \<and> 1 \<le> length (w_levels w'))"
proof
  assume a: "\<forall>requested count. \<forall>w'.
        writer_prepare (skip_writer_new 2 2 :: unit skip_writer) requested count (\<lambda>env n. []) = Inr w'
        \<longrightarrow> (\<exists>m. max_levels 2 2 count = Inr m \<and> length (w_levels w') = min requested m)
            \<and> 1 \<le> length (w_levels w')"
  have "writer_prepare (skip_writer_new 2 2 :: unit skip_writer) 3 2 (\<lambda>env n. [])
          = Inr ((skip_writer_new 2 2)\<lparr>w_levels := [], w_write := (\<lambda>env n. [])\<rparr>)"
    by (simp add: writer_prepare_def max_levels_def skip_writer_new_def resize_def)
  with a have "1 \<le> length (w_levels ((skip_writer_new 2 2 :: unit skip_writer)\<lparr>w_levels := [], w_write := (\<lambda>env n. [])\<rparr>))"
    by blast
  then show False by simp
qed


section \<open>Variable-length integers: reading back what was written\<close>

lemma vencode_nonempty: "vencode n \<noteq> []"
  by (subst vencode.simps) simp

lemma length_vencode_pos: "0 < length (vencode n)"
  using vencode_nonempty [of n] by simp

lemma unat_byte: "n < 256 \<Longrightarrow> unat (word_of_nat n :: byte_type) = n"
  by (simp add: unat_of_nat)

lemma vdecode_vencode: "vdecode (vencode n @ rest) = Some (n, length (vencode n))"
proof (induction n rule: vencode.induct)
  case (1 n)
  show ?case
  proof (cases "n < 128")
    case True
    then show ?thesis by (subst (1 2) vencode.simps) (simp add: unat_byte)
  next
    case False
    have b: "unat (128 + word_of_nat (n mod 128) :: byte_type) = 128 + n mod 128"
      using unat_byte [of "128 + n mod 128"] by simp
    from False 1 have ih: "vdecode (vencode (n div 128) @ rest) = Some (n div 128, length (vencode (n div 128)))"
      by simp
    from False show ?thesis
      by (subst (1 2) vencode.simps) (simp add: b ih)
  qed
qed

lemma vdecode_consumed: "vdecode bs = Some (v, k) \<Longrightarrow> 0 < k \<and> k \<le> length bs"
  by (induction bs arbitrary: v k) (auto split: if_splits option.splits)

lemma read_vlong_write_vlong:
  "drop (ptr s) (data s) = write_vlong v @ rest \<Longrightarrow>
   read_vlong s = Inr (v mod 2 ^ 64, s\<lparr>ptr := ptr s + length (write_vlong v)\<rparr>)"
  by (simp add: read_vlong_def write_vlong_def vdecode_vencode)

lemma read_vint_write_vint:
  "drop (ptr s) (data s) = write_vint v @ rest \<Longrightarrow>
   read_vint s = Inr (v mod 2 ^ 32, s\<lparr>ptr := ptr s + length (write_vint v)\<rparr>)"
  by (simp add: read_vint_def write_vint_def vdecode_vencode)

lemma read_vlong_Inl: "read_vlong s = Inl e \<Longrightarrow> e = IoError"
  by (auto simp: read_vlong_def split: option.splits)

lemma read_vlong_forward:
  "read_vlong s = Inr (v, s1) \<Longrightarrow> data s1 = data s \<and> ptr s < ptr s1 \<and> v < 2 ^ 64"
  by (auto simp: read_vlong_def split: option.splits dest: vdecode_consumed)

section \<open>The window of a level\<close>

text \<open>
  C9. \<^verbatim>\<open>level::read_bytes\<close> bounds the number of bytes by \<^verbatim>\<open>size_t(end) - file_pointer()\<close>,
  where \<^verbatim>\<open>end\<close> is an offset in the underlying stream and \<^verbatim>\<open>file_pointer()\<close> is relative
  to \<^verbatim>\<open>begin\<close>: the bound is too large by \<^verbatim>\<open>begin\<close>. A level with the window \<open>[2, 4)\<close> and
  its cursor at 2, asked for 10 bytes, returns 4 bytes: the 2 of its window and the 2 that
  follow it.
\<close>

theorem level_read_bytes_beyond_window:
  "level_length (level_new \<lparr>data = [4, 2, 15, 3, 4, 7, 3, 15, 7], ptr = 2\<rparr> 8 2 4) = 2 \<and>
   fst (level_read_bytes (level_new \<lparr>data = [4, 2, 15, 3, 4, 7, 3, 15, 7], ptr = 2\<rparr> 8 2 4) 10)
     = [15, 3, 4, 7]"
  by (simp add: level_length_def level_read_bytes_def level_file_pointer_def read_bytes_def
      level_new_def sub64_def)

section \<open>A reader without levels\<close>

text \<open>
  C3. When \<^verbatim>\<open>prepare\<close> of a newly constructed reader reads a level count of zero, the
  reader holds no levels, and \<^verbatim>\<open>seek\<close> must not be called: for every target the assertion
  \<^verbatim>\<open>assert(!levels_.empty())\<close> fails, and no skip count is returned.
\<close>

theorem seek_without_levels:
  assumes "read_vint inp = Inr (0, in1)"
  shows "\<exists>r. reader_prepare (skip_reader_new skip_0 skip_n) inp rd = Inr r
     \<and> r_levels r = [] \<and> (\<forall>target. seek r target = Some (Inl Assertion))"
  using assms by (simp add: reader_prepare_def skip_reader_new_def seek_def)

lemma read_vint_zero: "read_vint \<lparr>data = [0], ptr = 0\<rparr> = Inr (0, \<lparr>data = [0], ptr = 1\<rparr>)"
  by (simp add: read_vint_def)

theorem seek_without_levels_witness:
  "read_vint \<lparr>data = [0], ptr = 0\<rparr> = Inr (0, \<lparr>data = [0], ptr = 1\<rparr>) \<and>
   (\<exists>r. reader_prepare (skip_reader_new 2 2) \<lparr>data = [0], ptr = 0\<rparr> read_doc = Inr r
     \<and> r_levels r = [] \<and> (\<forall>target. seek r target = Some (Inl Assertion)))"
  using seek_without_levels [OF read_vint_zero, of 2 2 read_doc] read_vint_zero by simp

text \<open>
  The claim as stated fails: on the reader loaded from the single byte 0 (a level count of
  zero), \<^verbatim>\<open>seek(10)\<close> does not return 0 with the reader unchanged.
\<close>

theorem seek_without_levels_counterexample:
  "load_skip_list 2 2 [0] = Inr ((skip_reader_new 2 2)\<lparr>r_read := read_doc\<rparr>) \<and>
   seek ((skip_reader_new 2 2)\<lparr>r_read := read_doc\<rparr>) 10
     \<noteq> Some (Inr (0, (skip_reader_new 2 2)\<lparr>r_read := read_doc\<rparr>))"
  by (simp add: load_skip_list_def reader_prepare_def read_vint_def skip_reader_new_def seek_def)

section \<open>Loading the levels\<close>

lemma load_level_index_error:
  "(load_level levels s stp = Inl IndexError) = (\<exists>s1. read_vlong s = Inr (0, s1))"
  by (auto simp: load_level_def Let_def split: sum.splits if_splits dest: read_vlong_Inl)

lemma load_levels_index_error:
  "(load_levels sn k stp inp lv = Inl IndexError) =
   (\<exists>j lv1 inp1 s1. j < k \<and> load_levels sn j stp inp lv = Inr (lv1, inp1)
       \<and> read_vlong inp1 = Inr (0, s1))"
proof (induction k arbitrary: stp inp lv)
  case 0
  then show ?case by simp
next
  case (Suc k)
  show ?case
  proof (cases "load_level lv inp stp")
    case (Inl e)
    show ?thesis
    proof (cases "e = IndexError")
      case True
      with Inl obtain s1 where "read_vlong inp = Inr (0, s1)"
        by (auto simp: load_level_index_error)
      then have "0 < Suc k \<and> load_levels sn 0 stp inp lv = Inr (lv, inp) \<and> read_vlong inp = Inr (0, s1)"
        by simp
      then have "\<exists>j lv1 inp1 s1. j < Suc k \<and> load_levels sn j stp inp lv = Inr (lv1, inp1)
          \<and> read_vlong inp1 = Inr (0, s1)" by blast
      with Inl True show ?thesis by simp
    next
      case False
      have "\<not> (\<exists>j lv1 inp1 s1. j < Suc k \<and> load_levels sn j stp inp lv = Inr (lv1, inp1)
          \<and> read_vlong inp1 = Inr (0, s1))"
      proof
        assume "\<exists>j lv1 inp1 s1. j < Suc k \<and> load_levels sn j stp inp lv = Inr (lv1, inp1)
          \<and> read_vlong inp1 = Inr (0, s1)"
        then obtain j lv1 inp1 s1 where j: "load_levels sn j stp inp lv = Inr (lv1, inp1)"
          "read_vlong inp1 = Inr (0, s1)" by blast
        show False
        proof (cases j)
          case 0
          with j have "read_vlong inp = Inr (0, s1)" by simp
          then have "load_level lv inp stp = Inl IndexError"
            by (auto simp: load_level_index_error)
          with Inl False show False by simp
        next
          case (Suc j')
          with j Inl show False by simp
        qed
      qed
      with Inl False show ?thesis by simp
    qed
  next
    case (Inr lv0)
    then have nz: "\<And>s1. read_vlong inp \<noteq> Inr (0, s1)"
      using load_level_index_error [of lv inp stp] by auto
    show ?thesis
    proof (cases "sn = 0")
      case True
      have "\<not> (\<exists>j lv1 inp1 s1. j < Suc k \<and> load_levels sn j stp inp lv = Inr (lv1, inp1)
          \<and> read_vlong inp1 = Inr (0, s1))"
      proof
        assume "\<exists>j lv1 inp1 s1. j < Suc k \<and> load_levels sn j stp inp lv = Inr (lv1, inp1)
          \<and> read_vlong inp1 = Inr (0, s1)"
        then obtain j lv1 inp1 s1 where j: "load_levels sn j stp inp lv = Inr (lv1, inp1)"
          "read_vlong inp1 = Inr (0, s1)" by blast
        show False
        proof (cases j)
          case 0
          with j have "read_vlong inp = Inr (0, s1)" by simp
          with nz show False by blast
        next
          case (Suc j')
          with j Inr True show False by (simp add: Let_def)
        qed
      qed
      with Inr True show ?thesis by (simp add: Let_def)
    next
      case False
      let ?inp = "inp\<lparr>ptr := lend (last lv0)\<rparr>"
      have step: "\<And>m. load_levels sn (Suc m) stp inp lv = load_levels sn m (stp div sn) ?inp lv0"
        using Inr False by (simp add: Let_def)
      have "(\<exists>j lv1 inp1 s1. j < Suc k \<and> load_levels sn j stp inp lv = Inr (lv1, inp1)
              \<and> read_vlong inp1 = Inr (0, s1))
          = (\<exists>j lv1 inp1 s1. j < k \<and> load_levels sn j (stp div sn) ?inp lv0 = Inr (lv1, inp1)
              \<and> read_vlong inp1 = Inr (0, s1))" (is "?L = ?R")
      proof
        assume ?L
        then obtain j lv1 inp1 s1 where j: "j < Suc k" "load_levels sn j stp inp lv = Inr (lv1, inp1)"
          "read_vlong inp1 = Inr (0, s1)" by blast
        show ?R
        proof (cases j)
          case 0
          with j have "read_vlong inp = Inr (0, s1)" by simp
          with nz show ?thesis by blast
        next
          case (Suc j')
          with j step [of j'] have "j' < k \<and> load_levels sn j' (stp div sn) ?inp lv0 = Inr (lv1, inp1)
             \<and> read_vlong inp1 = Inr (0, s1)" by simp
          then show ?thesis by blast
        qed
      next
        assume ?R
        then obtain j lv1 inp1 s1 where j: "j < k" "load_levels sn j (stp div sn) ?inp lv0 = Inr (lv1, inp1)"
          "read_vlong inp1 = Inr (0, s1)" by blast
        with step [of j] have "Suc j < Suc k \<and> load_levels sn (Suc j) stp inp lv = Inr (lv1, inp1)
             \<and> read_vlong inp1 = Inr (0, s1)" by simp
        then show ?L by blast
      qed
      with Suc.IH [of "stp div sn" ?inp lv0] step [of k] show ?thesis by simp
    qed
  qed
qed


lemma read_vint_Inl: "read_vint s = Inl e \<Longrightarrow> e = IoError"
  by (auto simp: read_vint_def split: option.splits)

lemma reader_prepare_index_error:
  "(reader_prepare r inp rd = Inl IndexError) =
     (\<exists>n in1 j lv1 inp1 s1. read_vint inp = Inr (n, in1) \<and> j < n
        \<and> load_levels (r_skip_n r) j (u64 (r_skip_0 r * pow_size_t (r_skip_n r) (n - 1))) in1 [] = Inr (lv1, inp1)
        \<and> read_vlong inp1 = Inr (0, s1))"
proof (cases "read_vint inp")
  case (Inl e)
  then show ?thesis by (auto simp: reader_prepare_def dest: read_vint_Inl)
next
  case (Inr p)
  obtain n in1 where p: "p = (n, in1)" by (cases p)
  define stp where "stp = u64 (r_skip_0 r * pow_size_t (r_skip_n r) (n - 1))"
  define sn where "sn = r_skip_n r"
  have rhs: "(\<exists>n in1 j lv1 inp1 s1. read_vint inp = Inr (n, in1) \<and> j < n
        \<and> load_levels (r_skip_n r) j (u64 (r_skip_0 r * pow_size_t (r_skip_n r) (n - 1))) in1 [] = Inr (lv1, inp1)
        \<and> read_vlong inp1 = Inr (0, s1))
     = (\<exists>j lv1 inp1 s1. j < n \<and> load_levels sn j stp in1 [] = Inr (lv1, inp1)
        \<and> read_vlong inp1 = Inr (0, s1))"
    using Inr p by (simp add: stp_def sn_def)
  show ?thesis
  proof (cases "n = 0")
    case True
    with Inr p rhs show ?thesis by (simp add: reader_prepare_def)
  next
    case False
    then obtain k where k: "n = Suc k" by (cases n) auto
    show ?thesis
    proof (cases "load_levels sn k stp in1 []")
      case (Inl e)
      have lhs: "(reader_prepare r inp rd = Inl IndexError) = (e = IndexError)"
        using Inr p k Inl by (simp add: reader_prepare_def stp_def sn_def)
      have "(e = IndexError) = (\<exists>j lv1 inp1 s1. j < n \<and> load_levels sn j stp in1 [] = Inr (lv1, inp1)
        \<and> read_vlong inp1 = Inr (0, s1))" (is "?A = ?B")
      proof
        assume ?A
        with Inl have "load_levels sn k stp in1 [] = Inl IndexError" by simp
        then obtain j lv1 inp1 s1 where "j < k" "load_levels sn j stp in1 [] = Inr (lv1, inp1)"
          "read_vlong inp1 = Inr (0, s1)"
          unfolding load_levels_index_error by blast
        then have "j < n \<and> load_levels sn j stp in1 [] = Inr (lv1, inp1) \<and> read_vlong inp1 = Inr (0, s1)"
          using k by simp
        then show ?B by blast
      next
        assume ?B
        then obtain j lv1 inp1 s1 where j: "j < n" "load_levels sn j stp in1 [] = Inr (lv1, inp1)"
          "read_vlong inp1 = Inr (0, s1)" by blast
        from j Inl have "j \<noteq> k" by auto
        with j k have "j < k" by simp
        with j have "load_levels sn k stp in1 [] = Inl IndexError"
          unfolding load_levels_index_error by blast
        with Inl show ?A by simp
      qed
      with lhs rhs show ?thesis by simp
    next
      case (Inr q)
      obtain lv in2 where q: "q = (lv, in2)" by (cases q)
      have lhs: "(reader_prepare r inp rd = Inl IndexError) = (\<exists>s1. read_vlong in2 = Inr (0, s1))"
        using \<open>read_vint inp = Inr p\<close> p k Inr q load_level_index_error [of lv in2 "r_skip_0 r"]
        by (auto simp: reader_prepare_def stp_def sn_def split: sum.splits)
      have "(\<exists>s1. read_vlong in2 = Inr (0, s1)) = (\<exists>j lv1 inp1 s1. j < n \<and> load_levels sn j stp in1 [] = Inr (lv1, inp1)
        \<and> read_vlong inp1 = Inr (0, s1))" (is "?A = ?B")
      proof
        assume ?A
        then obtain s1 where "read_vlong in2 = Inr (0, s1)" by blast
        with Inr q k have "k < n \<and> load_levels sn k stp in1 [] = Inr (lv, in2) \<and> read_vlong in2 = Inr (0, s1)"
          by simp
        then show ?B by blast
      next
        assume ?B
        then obtain j lv1 inp1 s1 where j: "j < n" "load_levels sn j stp in1 [] = Inr (lv1, inp1)"
          "read_vlong inp1 = Inr (0, s1)" by blast
        have "j = k"
        proof (rule ccontr)
          assume "j \<noteq> k"
          with j k have "j < k" by simp
          with j have "load_levels sn k stp in1 [] = Inl IndexError"
            unfolding load_levels_index_error by blast
          with Inr show False by simp
        qed
        with j Inr q show ?A by auto
      qed
      with lhs rhs show ?thesis by simp
    qed
  qed
qed

text \<open>
  C7. \<^verbatim>\<open>load_level\<close> raises the index error if and only if the length it reads is zero,
  and \<^verbatim>\<open>prepare\<close> raises it if and only if the stream declares \<open>n > 0\<close> levels and, for
  some \<open>j < n\<close>, the first \<open>j\<close> levels load and the length declared next is zero: the error of
  the level is raised at once and reaches the caller of \<^verbatim>\<open>prepare\<close>.
\<close>

theorem load_level_raises_index_error:
  "((load_level levels s stp = Inl IndexError) = (\<exists>s1. read_vlong s = Inr (0, s1))) \<and>
   ((reader_prepare r inp rd = Inl IndexError) =
     (\<exists>n in1 j lv1 inp1 s1. read_vint inp = Inr (n, in1) \<and> j < n
        \<and> load_levels (r_skip_n r) j (u64 (r_skip_0 r * pow_size_t (r_skip_n r) (n - 1))) in1 [] = Inr (lv1, inp1)
        \<and> read_vlong inp1 = Inr (0, s1)))"
  using load_level_index_error [of levels s stp] reader_prepare_index_error [of r inp rd]
  by blast


section \<open>The worked example, evaluated\<close>

lemma vencode_small: "n < 128 \<Longrightarrow> vencode n = [word_of_nat n]"
  by (simp add: vencode.simps)

lemma load_levels_pos:
  "0 < k \<Longrightarrow> load_levels sn k stp inp levels =
     (case load_level levels inp stp of
        Inl e \<Rightarrow> Inl e
      | Inr levels1 \<Rightarrow>
          if sn = 0 then Inl DivByZero
          else load_levels sn (k - 1) (stp div sn) (inp\<lparr>ptr := lend (last levels1)\<rparr>) levels1)"
  by (cases k) (auto simp: Let_def split: sum.splits)

lemmas writer_eval = write_skip_list_def writer_prepare_def skip_writer_new_def max_levels_def
  math_log.simps resize_def skip_def flush_def write_doc_def write_vlong_def write_vint_def
  vencode_small Let_def

lemmas load_eval = load_levels_pos load_skip_list_def reader_prepare_def skip_reader_new_def
  pow_size_t_def round_double_def read_vint_def read_vlong_def load_level_def level_new_def u64_def UNDEFINED_def Let_def

lemmas seek_eval = seek_def find_level_def upper_bound.simps seek_level_def seek_skip_def
  read_skip_def read_until.simps read_doc_def level_eof_def read_vlong_def u64_def sub64_def
  UNDEFINED_def doc_eof_def doc_invalid_def Let_def

lemma example_write: "write_skip_list 2 2 4 example_docs = Inr example_bytes"
  by (simp add: writer_eval example_docs_def example_bytes_def)

lemma example_load: "load_skip_list 2 2 example_bytes = Inr example_reader"
  by (simp add: load_eval example_reader_def example_level_def example_bytes_def doc_invalid_def)

lemma example_seek_2: "seek example_reader 2 = Some (Inr (2, example_reader_2))"
  by (simp add: seek_eval example_reader_def example_reader_2_def example_level_def example_bytes_def)

lemma example_seek_10: "seek example_reader 10 = Some (Inr (10, example_reader_10))"
  by (simp add: seek_eval example_reader_def example_reader_10_def example_level_def example_bytes_def)

lemma crafted_load: "load_skip_list 2 2 crafted_bytes = Inr crafted_reader"
  by (simp add: load_eval crafted_reader_def crafted_level_def crafted_bytes_def doc_invalid_def)

section \<open>The level a seek starts from\<close>

lemma upper_bound_partition:
  assumes "sorted ds" and "first + len \<le> length ds"
    and "\<forall>i<first. ds ! i \<le> target"
    and "\<forall>i. first + len \<le> i \<and> i < length ds \<longrightarrow> target < ds ! i"
  shows "upper_bound target ds first len \<le> length ds
     \<and> (\<forall>i<upper_bound target ds first len. ds ! i \<le> target)
     \<and> (\<forall>i. upper_bound target ds first len \<le> i \<and> i < length ds \<longrightarrow> target < ds ! i)"
  using assms
proof (induction target ds first len rule: upper_bound.induct)
  case (1 target ds first len)
  show ?case
  proof (cases "len = 0")
    case True
    with 1(3-) show ?thesis by (subst (1 2 3) upper_bound.simps) simp
  next
    case False
    define half where "half = len div 2"
    define middle where "middle = first + half"
    from False have hl: "half < len" by (simp add: half_def)
    with 1(4) have mid: "middle < length ds" by (simp add: middle_def)
    show ?thesis
    proof (cases "target < ds ! middle")
      case True
      have a: "\<forall>i. first + half \<le> i \<and> i < length ds \<longrightarrow> target < ds ! i"
      proof (intro allI impI)
        fix i assume i: "first + half \<le> i \<and> i < length ds"
        with 1(3) have "ds ! middle \<le> ds ! i"
          by (simp add: middle_def sorted_iff_nth_mono)
        with True show "target < ds ! i" by simp
      qed
      have b: "first + half \<le> length ds" using hl 1(4) by simp
      have eq: "upper_bound target ds first len = upper_bound target ds first half"
        using False True by (subst upper_bound.simps) (simp add: half_def middle_def Let_def)
      from "1.IH"(1) [OF False half_def middle_def True 1(3) b 1(5) a] show ?thesis
        unfolding eq .
    next
      case nlt: False
      have a: "\<forall>i<middle + 1. ds ! i \<le> target"
      proof (intro allI impI)
        fix i assume "i < middle + 1"
        then have "i \<le> middle" by simp
        with 1(3) mid have "ds ! i \<le> ds ! middle"
          by (simp add: sorted_iff_nth_mono)
        with nlt show "ds ! i \<le> target" by simp
      qed
      have s: "middle + 1 + (len - half - 1) = first + len"
        using hl by (simp add: middle_def)
      have b: "middle + 1 + (len - half - 1) \<le> length ds" using s 1(4) by simp
      have c: "\<forall>i. middle + 1 + (len - half - 1) \<le> i \<and> i < length ds \<longrightarrow> target < ds ! i"
        using 1(6) s by simp
      have eq: "upper_bound target ds first len = upper_bound target ds (middle + 1) (len - half - 1)"
        using False nlt by (subst upper_bound.simps) (simp add: half_def middle_def Let_def)
      from "1.IH"(2) [OF False half_def middle_def nlt 1(3) b a c] show ?thesis
        unfolding eq .
    qed
  qed
qed

lemma doc_rev_nth:
  "j < length ls \<Longrightarrow> map doc (rev ls) ! j = doc (ls ! (length ls - 1 - j))"
  by (simp add: rev_nth)

text \<open>
  C5. On levels whose documents are sorted (from the finest level to the coarsest),
  \<^verbatim>\<open>find_level(target)\<close> returns the coarsest level whose document is not greater than the
  target: the level itself is at or below the target and every coarser level is above
  it. When every level is above the target it returns the finest level; when no level is
  at or above the target, the coarsest one.
\<close>

theorem find_level_coarsest_not_above:
  assumes "ls \<noteq> []" and "sorted (map doc (rev ls))"
  shows "\<exists>i. find_level ls target = Inr i \<and> i < length ls
     \<and> ((\<exists>j<length ls. doc (ls ! j) \<le> target)
          \<longrightarrow> doc (ls ! i) \<le> target \<and> (\<forall>j<i. target < doc (ls ! j)))
     \<and> ((\<forall>j<length ls. target < doc (ls ! j)) \<longrightarrow> i = length ls - 1)
     \<and> ((\<forall>j<length ls. doc (ls ! j) < target) \<longrightarrow> i = 0)"
proof -
  define ds where "ds = map doc (rev ls)"
  define n where "n = length ls"
  define r where "r = upper_bound target ds 0 (length ds)"
  have n: "0 < n" "length ds = n" using assms(1) by (simp_all add: n_def ds_def)
  have nth: "\<And>j. j < n \<Longrightarrow> doc (ls ! j) = ds ! (n - 1 - j)"
    using doc_rev_nth [of _ ls] by (simp add: ds_def n_def)
  have "r \<le> length ds \<and> (\<forall>i<r. ds ! i \<le> target) \<and> (\<forall>i. r \<le> i \<and> i < length ds \<longrightarrow> target < ds ! i)"
    unfolding r_def using assms(2) by (intro upper_bound_partition) (auto simp: ds_def)
  then have r: "r \<le> n" "\<And>i. i < r \<Longrightarrow> ds ! i \<le> target" "\<And>i. r \<le> i \<Longrightarrow> i < n \<Longrightarrow> target < ds ! i"
    using n by auto
  have "find_level ls target =
      (if r = length ds then Inr 0 else Inr (length ls - 1 - (if r \<noteq> 0 then r - 1 else r)))"
    unfolding find_level_def Let_def r_def ds_def using assms(2) by simp
  then have fl: "find_level ls target = Inr (if r = n then 0 else n - 1 - (if r \<noteq> 0 then r - 1 else r))"
    using n by (simp add: n_def)
  consider (all) "r = n" | (none) "r = 0" "r < n" | (some) "0 < r" "r < n" using r(1) by linarith
  then show ?thesis
  proof cases
    case all
    have a: "doc (ls ! 0) \<le> target" using nth [of 0] r(2) [of "n - 1"] n all by simp
    have "0 < length ls \<and> \<not> target < doc (ls ! 0)" using a n by (simp add: n_def not_less)
    then have b: "\<not> (\<forall>j<length ls. target < doc (ls ! j))" by blast
    from all fl a b n show ?thesis by (auto simp: n_def)
  next
    case none
    have a: "\<And>j. j < n \<Longrightarrow> target < doc (ls ! j)" using nth r(3) none by simp
    then have b: "\<not> (\<exists>j<length ls. doc (ls ! j) \<le> target)"
      using leD by (fastforce simp: n_def)
    have "0 < length ls \<and> \<not> doc (ls ! 0) < target" using a [of 0] n by (simp add: n_def not_less less_imp_le)
    then have c: "\<not> (\<forall>j<length ls. doc (ls ! j) < target)" by blast
    from none fl b c n show ?thesis by (auto simp: n_def)
  next
    case some
    have i: "find_level ls target = Inr (n - r)" using fl some by simp
    have a: "doc (ls ! (n - r)) \<le> target" using nth [of "n - r"] r(2) [of "r - 1"] some by simp
    have b: "\<And>j. j < n - r \<Longrightarrow> target < doc (ls ! j)"
      using nth r(3) some by simp
    have "n - r < length ls \<and> \<not> target < doc (ls ! (n - r))" using a some by (simp add: n_def not_less)
    then have c: "\<not> (\<forall>j<length ls. target < doc (ls ! j))" by blast
    have "target < doc (ls ! 0)" using nth [of 0] r(3) [of "n - 1"] some by simp
    then have "0 < length ls \<and> \<not> doc (ls ! 0) < target" using n by (simp add: n_def not_less less_imp_le)
    then have d: "\<not> (\<forall>j<length ls. doc (ls ! j) < target)" by blast
    from i a b c d some show ?thesis by (auto simp: n_def)
  qed
qed

theorem find_level_coarsest_not_above_witness:
  "example_levels \<noteq> [] \<and> sorted (map doc (rev example_levels)) \<and>
   (\<exists>i. find_level example_levels 5 = Inr i \<and> i < length example_levels
     \<and> ((\<exists>j<length example_levels. doc (example_levels ! j) \<le> 5)
          \<longrightarrow> doc (example_levels ! i) \<le> 5 \<and> (\<forall>j<i. 5 < doc (example_levels ! j)))
     \<and> ((\<forall>j<length example_levels. 5 < doc (example_levels ! j)) \<longrightarrow> i = length example_levels - 1)
     \<and> ((\<forall>j<length example_levels. doc (example_levels ! j) < 5) \<longrightarrow> i = 0))"
proof -
  have h1: "example_levels \<noteq> []"
    by (simp add: example_levels_def example_reader_2_def)
  have h2: "sorted (map doc (rev example_levels))"
    by (simp add: example_levels_def example_reader_2_def example_level_def)
  from find_level_coarsest_not_above [OF h1 h2, of 5] h1 h2 show ?thesis by blast
qed

text \<open>
  The claim as stated fails on the example reader after \<^verbatim>\<open>seek(2)\<close>: the documents of the
  levels, from the coarsest, are 15, 7, 3, 3. For the target 5 the coarsest level whose
  document is not less than the target is level 0 of the list (document 15), and the
  finest such level is level 1 (document 7); \<^verbatim>\<open>find_level(5)\<close> returns level 2, whose document
  3 is less than the target.
\<close>

theorem find_level_counterexample:
  "load_skip_list 2 2 example_bytes = Inr example_reader \<and>
   seek example_reader 2 = Some (Inr (2, example_reader_2)) \<and>
   map doc (r_levels example_reader_2) = [15, 7, 3, 3] \<and>
   sorted (map doc (rev (r_levels example_reader_2))) \<and>
   find_level (r_levels example_reader_2) 5 = Inr 2 \<and>
   doc (r_levels example_reader_2 ! 2) < 5"
  by (simp add: example_load example_seek_2)
    (simp add: example_reader_2_def example_level_def find_level_def upper_bound.simps Let_def)


section \<open>What the steps of a seek preserve\<close>

text \<open>
  A relation between the state of a level before and after, reflexive and transitive, that
  holds across \<^verbatim>\<open>read_skip\<close> and \<^verbatim>\<open>seek_skip\<close> holds across the inner loop, across the
  levels of a seek and across a sequence of seeks.
\<close>

lemma read_until_rel_aux:
  assumes refl: "\<forall>l. P l l" and trans: "\<forall>a b c. P a b \<longrightarrow> P b c \<longrightarrow> P a c"
    and run: "read_until rd n target l c = Some y"
  shows "(\<forall>n l l1. read_skip rd n l = Inr l1 \<longrightarrow> P l l1)
         \<longrightarrow> (\<forall>l1 c1. y = Inr (l1, c1) \<longrightarrow> P l l1)"
proof (rule read_until.raw_induct
    [where P = "\<lambda>rd n target l c y. (\<forall>n l l1. read_skip rd n l = Inr l1 \<longrightarrow> P l l1)
       \<longrightarrow> (\<forall>l1 c1. y = Inr (l1, c1) \<longrightarrow> P l l1)", OF _ run], goal_cases)
  case (1 f rd n target l child0 y)
  show ?case
  proof (intro impI allI)
    fix l1 c1
    assume st: "\<forall>n l l1. read_skip rd n l = Inr l1 \<longrightarrow> P l l1" and y: "y = Inr (l1, c1)"
    show "P l l1"
    proof (cases "doc l < target")
      case False
      with 1(2) y have "l1 = l" by simp
      with refl show ?thesis by simp
    next
      case True
      show ?thesis
      proof (cases "read_skip rd n l")
        case (Inl e)
        with True 1(2) y show ?thesis by simp
      next
        case (Inr l2)
        with True 1(2) have "f rd n target l2 (child l) = Some y" by simp
        from 1(1) [OF this] st y have "P l2 l1" by blast
        moreover from st Inr have "P l l2" by blast
        ultimately show ?thesis using trans by blast
      qed
    qed
  qed
qed

lemma read_until_rel:
  assumes refl: "\<forall>l. P l l" and trans: "\<forall>a b c. P a b \<longrightarrow> P b c \<longrightarrow> P a c"
    and rs: "\<forall>n l l1. read_skip rd n l = Inr l1 \<longrightarrow> P l l1"
    and run: "read_until rd n target l c = Some (Inr (l1, c1))"
  shows "P l l1"
  using read_until_rel_aux [OF refl trans run] rs by blast

lemma seek_level_rel:
  assumes refl: "\<forall>l. P l l" and trans: "\<forall>a b c. P a b \<longrightarrow> P b c \<longrightarrow> P a c"
    and rs: "\<forall>n l l1. read_skip rd n l = Inr l1 \<longrightarrow> P l l1"
    and ss: "\<forall>l p sk l1. seek_skip l p sk = Inr l1 \<longrightarrow> P l l1"
    and run: "seek_level rd n target l c s = Some (Inr (l1, c1, s1))"
  shows "P l l1"
proof (cases "doc l < target")
  case False
  with run have "l1 = l" by (simp add: seek_level_def)
  with refl show ?thesis by simp
next
  case True
  from True run obtain la where la: "seek_skip l c s = Inr la"
    by (cases "seek_skip l c s") (auto simp: seek_level_def)
  from True run la obtain lb where lb: "read_skip rd n la = Inr lb"
    by (cases "read_skip rd n la") (auto simp: seek_level_def)
  from True run la lb have "read_until rd n target lb (child la) = Some (Inr (l1, c1))"
    by (auto simp: seek_level_def split: option.splits sum.splits)
  from read_until_rel [OF refl trans rs this] have "P lb l1" .
  moreover from ss la have "P l la" by blast
  moreover from rs lb have "P la lb" by blast
  ultimately show ?thesis using trans by blast
qed

lemma seek_levels_rel:
  assumes refl: "\<forall>l. P l l" and trans: "\<forall>a b c. P a b \<longrightarrow> P b c \<longrightarrow> P a c"
    and rs: "\<forall>n l l1. read_skip rd n l = Inr l1 \<longrightarrow> P l l1"
    and ss: "\<forall>l p sk l1. seek_skip l p sk = Inr l1 \<longrightarrow> P l l1"
  shows "seek_levels rd target ls c s = Some (Inr ls1) \<Longrightarrow> list_all2 P ls ls1"
proof (induction ls arbitrary: c s ls1)
  case Nil
  then show ?case by simp
next
  case (Cons l ls)
  from Cons.prems obtain l1 c1 s1 where a: "seek_level rd (length ls) target l c s = Some (Inr (l1, c1, s1))"
    by (auto split: option.splits sum.splits)
  with Cons.prems obtain ls2 where b: "seek_levels rd target ls c1 s1 = Some (Inr ls2)" and c: "ls1 = l1 # ls2"
    by (auto split: option.splits sum.splits)
  from seek_level_rel [OF refl trans rs ss a] have "P l l1" .
  with Cons.IH [OF b] c show ?case by simp
qed

lemma seek_rel:
  assumes refl: "\<forall>l. P l l" and trans: "\<forall>a b c. P a b \<longrightarrow> P b c \<longrightarrow> P a c"
    and rs: "\<forall>n l l1. read_skip (r_read r) n l = Inr l1 \<longrightarrow> P l l1"
    and ss: "\<forall>l p sk l1. seek_skip l p sk = Inr l1 \<longrightarrow> P l l1"
    and run: "seek r target = Some (Inr (s, r1))"
  shows "\<exists>ls. r1 = r\<lparr>r_levels := ls\<rparr> \<and> list_all2 P (r_levels r) ls"
proof -
  from run obtain i ls1 where i: "find_level (r_levels r) target = Inr i"
    and ls1: "seek_levels (r_read r) target (drop i (r_levels r)) 0 0 = Some (Inr ls1)"
    and r1: "r1 = r\<lparr>r_levels := take i (r_levels r) @ ls1\<rparr>"
    by (auto simp: seek_def Let_def split: if_splits sum.splits option.splits)
  from seek_levels_rel [OF refl trans rs ss ls1]
  have "list_all2 P (drop i (r_levels r)) ls1" .
  moreover have "list_all2 P (take i (r_levels r)) (take i (r_levels r))"
    using refl by (simp add: list_all2_same)
  ultimately have "list_all2 P (take i (r_levels r) @ drop i (r_levels r)) (take i (r_levels r) @ ls1)"
    by (rule list_all2_appendI [rotated])
  with r1 have "r1 = r\<lparr>r_levels := take i (r_levels r) @ ls1\<rparr>
      \<and> list_all2 P (r_levels r) (take i (r_levels r) @ ls1)" by simp
  then show ?thesis by blast
qed

lemma seeks_rel:
  assumes refl: "\<forall>l. P l l" and trans: "\<forall>a b c. P a b \<longrightarrow> P b c \<longrightarrow> P a c"
    and rs: "\<forall>n l l1. read_skip (r_read r) n l = Inr l1 \<longrightarrow> P l l1"
    and ss: "\<forall>l p sk l1. seek_skip l p sk = Inr l1 \<longrightarrow> P l l1"
  shows "seeks r ts = Some (Inr (ss1, r1)) \<Longrightarrow>
     \<exists>ls. r1 = r\<lparr>r_levels := ls\<rparr> \<and> list_all2 P (r_levels r) ls"
  using rs
proof (induction ts arbitrary: r ss1)
  case Nil
  then have "r1 = r\<lparr>r_levels := r_levels r\<rparr> \<and> list_all2 P (r_levels r) (r_levels r)"
    using refl by (simp add: list_all2_same)
  then show ?case by blast
next
  case (Cons t ts)
  from Cons.prems(1) obtain s ra where a: "seek r t = Some (Inr (s, ra))"
    by (auto split: option.splits sum.splits)
  with Cons.prems(1) obtain ss2 where b: "seeks ra ts = Some (Inr (ss2, r1))"
    by (auto split: option.splits sum.splits)
  from seek_rel [OF refl trans Cons.prems(2) ss a]
  obtain la where ra: "ra = r\<lparr>r_levels := la\<rparr>" and p: "list_all2 P (r_levels r) la" by blast
  from ra Cons.prems(2) have "\<forall>n l l1. read_skip (r_read ra) n l = Inr l1 \<longrightarrow> P l l1" by simp
  from Cons.IH [OF b this]
  obtain lb where r1: "r1 = ra\<lparr>r_levels := lb\<rparr>" and q: "list_all2 P (r_levels ra) lb" by blast
  from q ra have q1: "list_all2 P la lb" by simp
  have "list_all2 P (r_levels r) lb"
    by (rule list_all2_trans [OF _ p q1]) (use trans in blast)
  moreover from ra r1 have "r1 = r\<lparr>r_levels := lb\<rparr>" by simp
  ultimately show ?case by blast
qed


lemma read_skip_shape:
  "read_skip rd n l = Inr l1 \<Longrightarrow>
     data (stream l1) = data (stream l) \<and> lbegin l1 = lbegin l \<and> lend l1 = lend l
     \<and> step l1 = step l \<and> (child l = UNDEFINED \<longrightarrow> child l1 = UNDEFINED)"
  by (auto simp: read_skip_def Let_def split: sum.splits if_splits prod.splits
      dest: read_vlong_forward)

lemma seek_skip_shape:
  "seek_skip l p sk = Inr l1 \<Longrightarrow>
     data (stream l1) = data (stream l) \<and> lbegin l1 = lbegin l \<and> lend l1 = lend l
     \<and> step l1 = step l \<and> (child l = UNDEFINED \<longrightarrow> child l1 = UNDEFINED)"
  by (auto simp: seek_skip_def Let_def split: sum.splits if_splits prod.splits
      dest: read_vlong_forward)

lemma read_skip_forward:
  "forward_read rd \<Longrightarrow> read_skip rd n l = Inr l1 \<Longrightarrow> ptr (stream l) \<le> ptr (stream l1)"
  by (fastforce simp: read_skip_def forward_read_def Let_def
      split: sum.splits if_splits prod.splits dest: read_vlong_forward)

lemma seek_skip_forward:
  "seek_skip l p sk = Inr l1 \<Longrightarrow>
     (if ptr (stream l) < u64 (lbegin l + p) then u64 (lbegin l + p) \<le> ptr (stream l1)
      else l1 = l)"
  by (fastforce simp: seek_skip_def Let_def split: sum.splits if_splits prod.splits
      dest: read_vlong_forward)

lemma forward_read_doc: "forward_read read_doc"
  by (auto simp: forward_read_def read_doc_def split: if_splits sum.splits prod.splits
      dest: read_vlong_forward)


lemma example_seek_2_10: "seek example_reader_2 10 = Some (Inr (10, example_reader_10))"
  by (simp add: seek_eval example_reader_def example_reader_2_def example_reader_10_def
      example_level_def example_bytes_def)

lemma example_seeks: "seeks example_reader [2, 10] = Some (Inr ([2, 10], example_reader_10))"
  by (simp add: example_seek_2 example_seek_2_10)

section \<open>The cursors only move forward\<close>

text \<open>
  C6. \<^verbatim>\<open>seek_skip\<close> moves the cursor of a level to the child offset only when the offset is
  strictly ahead of the cursor, and leaves the level as it is otherwise. With a read
  callback that reads forward, after every sequence of \<^verbatim>\<open>seek\<close> calls (the targets
  non-decreasing or not) the cursor of every level is where it was or further ahead.
\<close>

theorem seek_never_moves_backward:
  assumes "forward_read (r_read r)" and "seeks r ts = Some (Inr (ss, r1))"
  shows "(\<forall>l p sk l1. seek_skip l p sk = Inr l1 \<longrightarrow>
            (if ptr (stream l) < u64 (lbegin l + p) then u64 (lbegin l + p) \<le> ptr (stream l1)
             else l1 = l))
     \<and> length (r_levels r1) = length (r_levels r)
     \<and> (\<forall>i<length (r_levels r). ptr (stream (r_levels r ! i)) \<le> ptr (stream (r_levels r1 ! i)))"
proof -
  let ?P = "\<lambda>l l1. ptr (stream l) \<le> ptr (stream l1)"
  have refl: "\<forall>l. ?P l l" by simp
  have trans: "\<forall>a b c. ?P a b \<longrightarrow> ?P b c \<longrightarrow> ?P a c" by simp
  have rs: "\<forall>n l l1. read_skip (r_read r) n l = Inr l1 \<longrightarrow> ?P l l1"
    using read_skip_forward [OF assms(1)] by blast
  have ss: "\<forall>l p sk l1. seek_skip l p sk = Inr l1 \<longrightarrow> ?P l l1"
  proof (intro allI impI)
    fix l p sk l1 assume "seek_skip l p sk = Inr l1"
    from seek_skip_forward [OF this] show "?P l l1" by (auto split: if_splits)
  qed
  from seeks_rel [of ?P, OF refl trans rs ss assms(2)]
  obtain ls where "r1 = r\<lparr>r_levels := ls\<rparr>" and "list_all2 ?P (r_levels r) ls" by blast
  then have "list_all2 ?P (r_levels r) (r_levels r1)" by simp
  then have "length (r_levels r1) = length (r_levels r)
     \<and> (\<forall>i<length (r_levels r). ptr (stream (r_levels r ! i)) \<le> ptr (stream (r_levels r1 ! i)))"
    by (simp add: list_all2_conv_all_nth)
  with seek_skip_forward show ?thesis by blast
qed

theorem seek_never_moves_backward_witness:
  "forward_read (r_read example_reader) \<and>
   seeks example_reader [2, 10] = Some (Inr ([2, 10], example_reader_10)) \<and>
   length (r_levels example_reader_10) = length (r_levels example_reader) \<and>
   map (\<lambda>l. ptr (stream l)) (r_levels example_reader) = [2, 5, 10, 19] \<and>
   map (\<lambda>l. ptr (stream l)) (r_levels example_reader_10) = [4, 9, 16, 25]"
proof -
  have h1: "forward_read (r_read example_reader)"
    by (simp add: example_reader_def forward_read_doc)
  from seek_never_moves_backward [OF h1 example_seeks] h1 example_seeks
  show ?thesis
    by (simp add: example_reader_def example_reader_10_def example_level_def)
qed


section \<open>What seek returns\<close>

lemma read_skip_read_doc_progress:
  assumes "read_skip read_doc n l = Inr l1"
  shows "lend l1 = lend l \<and>
     (doc l1 = doc_eof \<or> (ptr (stream l) < lend l \<and> ptr (stream l) < ptr (stream l1)))"
proof (cases "level_eof l")
  case True
  with assms show ?thesis
    by (auto simp: read_skip_def read_doc_def Let_def split: if_splits)
next
  case False
  then have lt: "ptr (stream l) < lend l" by (simp add: level_eof_def)
  from False assms obtain v s where v: "read_vlong (stream l) = Inr (v, s)"
    by (cases "read_vlong (stream l)") (auto simp: read_skip_def read_doc_def)
  then have p: "ptr (stream l) < ptr s" by (auto dest: read_vlong_forward)
  from False assms v p lt show ?thesis
    by (auto simp: read_skip_def read_doc_def Let_def split: if_splits sum.splits
        dest!: read_vlong_forward)
qed

lemma doc_eof_not_less: "\<not> doc_eof < target"
  by (simp add: doc_eof_def)

lemma read_until_read_doc_returns: "\<exists>y. read_until read_doc n target l c = Some y"
proof (induction "if doc l < target then Suc (lend l - ptr (stream l)) else 0"
    arbitrary: l c rule: less_induct)
  case less
  show ?case
  proof (cases "doc l < target")
    case False
    then show ?thesis by (subst read_until.simps) simp
  next
    case True
    show ?thesis
    proof (cases "read_skip read_doc n l")
      case (Inl e)
      with True show ?thesis by (subst read_until.simps) simp
    next
      case (Inr l1)
      from read_skip_read_doc_progress [OF Inr] True
      have "(if doc l1 < target then Suc (lend l1 - ptr (stream l1)) else 0)
          < (if doc l < target then Suc (lend l - ptr (stream l)) else 0)"
        by (auto simp: doc_eof_not_less)
      from less [OF this] obtain y where "read_until read_doc n target l1 (child l) = Some y"
        by blast
      with True Inr show ?thesis by (subst read_until.simps) simp
    qed
  qed
qed

lemma seek_level_read_doc_returns: "\<exists>y. seek_level read_doc n target l c s = Some y"
proof (cases "doc l < target")
  case False
  then show ?thesis by (simp add: seek_level_def)
next
  case True
  show ?thesis
  proof (cases "seek_skip l c s")
    case (Inl e)
    with True show ?thesis by (simp add: seek_level_def)
  next
    case la: (Inr la)
    show ?thesis
    proof (cases "read_skip read_doc n la")
      case (Inl e)
      with True la show ?thesis by (simp add: seek_level_def)
    next
      case lb: (Inr lb)
      obtain y where y: "read_until read_doc n target lb (child la) = Some y"
        using read_until_read_doc_returns by blast
      show ?thesis
      proof (cases y)
        case (Inl e)
        with True la lb y show ?thesis by (simp add: seek_level_def)
      next
        case (Inr t)
        with True la lb y show ?thesis by (cases t) (simp add: seek_level_def)
      qed
    qed
  qed
qed

lemma seek_levels_read_doc_returns: "\<exists>y. seek_levels read_doc target ls c s = Some y"
proof (induction ls arbitrary: c s)
  case Nil
  then show ?case by simp
next
  case (Cons l ls)
  obtain y where y: "seek_level read_doc (length ls) target l c s = Some y"
    using seek_level_read_doc_returns by blast
  show ?case
  proof (cases y)
    case (Inl e)
    with y show ?thesis by simp
  next
    case (Inr t)
    obtain l1 c1 s1 where t: "t = (l1, c1, s1)" by (cases t)
    from Cons.IH [of c1 s1] obtain z where "seek_levels read_doc target ls c1 s1 = Some z" by blast
    with y Inr t show ?thesis by (cases z) auto
  qed
qed

lemma seek_read_doc_returns:
  assumes "r_read r = read_doc"
  shows "\<exists>y. seek r target = Some y"
proof (cases "r_levels r = []")
  case True
  then show ?thesis by (simp add: seek_def)
next
  case False
  show ?thesis
  proof (cases "find_level (r_levels r) target")
    case (Inl e)
    with False show ?thesis by (simp add: seek_def)
  next
    case (Inr i)
    obtain y where y: "seek_levels read_doc target (drop i (r_levels r)) 0 0 = Some y"
      using seek_levels_read_doc_returns by blast
    with False Inr assms show ?thesis by (cases y) (simp_all add: seek_def Let_def)
  qed
qed

text \<open>
  C4. When \<^verbatim>\<open>seek(target)\<close> returns, it returns the accumulated \<^verbatim>\<open>skipped\<close> count of the
  finest level after the descent minus \<^verbatim>\<open>skip_0\<close> when that count is not zero, and 0 when
  it is zero. With the read callback of a document list, \<^verbatim>\<open>seek\<close> always comes back: it
  returns, or it ends in a failed assertion or a failed read.
\<close>

theorem seek_returns_finest_skipped:
  "(\<forall>s r1. seek r target = Some (Inr (s, r1)) \<longrightarrow>
       r_levels r1 \<noteq> [] \<and>
       s = (if skipped (last (r_levels r1)) \<noteq> 0
            then sub64 (skipped (last (r_levels r1))) (r_skip_0 r) else 0))
   \<and> (r_read r = read_doc \<longrightarrow> (\<exists>y. seek r target = Some y))"
proof -
  have "\<And>s r1. seek r target = Some (Inr (s, r1)) \<Longrightarrow>
       r_levels r1 \<noteq> [] \<and>
       s = (if skipped (last (r_levels r1)) \<noteq> 0
            then sub64 (skipped (last (r_levels r1))) (r_skip_0 r) else 0)"
  proof -
    fix s r1 assume run: "seek r target = Some (Inr (s, r1))"
    then obtain i ls1 where i: "find_level (r_levels r) target = Inr i"
      and ne: "r_levels r \<noteq> []"
      and ls1: "seek_levels (r_read r) target (drop i (r_levels r)) 0 0 = Some (Inr ls1)"
      and r1: "r1 = r\<lparr>r_levels := take i (r_levels r) @ ls1\<rparr>"
      and s: "s = (if skipped (last (take i (r_levels r) @ ls1)) \<noteq> 0
            then sub64 (skipped (last (take i (r_levels r) @ ls1))) (r_skip_0 r) else 0)"
      by (auto simp: seek_def Let_def split: if_splits sum.splits option.splits)
    have "list_all2 (\<lambda>l l1. True) (drop i (r_levels r)) ls1"
      by (rule seek_levels_rel [OF _ _ _ _ ls1]) simp_all
    then have "length ls1 = length (drop i (r_levels r))" by (rule list_all2_lengthD [symmetric])
    with ne have "take i (r_levels r) @ ls1 \<noteq> []" by (cases "i < length (r_levels r)") auto
    with r1 s show "r_levels r1 \<noteq> [] \<and>
       s = (if skipped (last (r_levels r1)) \<noteq> 0
            then sub64 (skipped (last (r_levels r1))) (r_skip_0 r) else 0)" by simp
  qed
  with seek_read_doc_returns [of r target] show ?thesis by blast
qed

theorem seek_returns_finest_skipped_witness:
  "seek example_reader 10 = Some (Inr (10, example_reader_10)) \<and>
   r_read example_reader = read_doc \<and>
   skipped (last (r_levels example_reader_10)) = 12 \<and> r_skip_0 example_reader = 2 \<and>
   10 = (if skipped (last (r_levels example_reader_10)) \<noteq> 0
         then sub64 (skipped (last (r_levels example_reader_10))) (r_skip_0 example_reader) else 0)"
  using seek_returns_finest_skipped [of example_reader 10] example_seek_10
  by (simp add: example_reader_def example_reader_10_def example_level_def)


section \<open>Reset\<close>

lemma load_level_fresh:
  assumes "load_level lv s stp = Inr lv1"
  shows "\<exists>l. lv1 = lv @ [l] \<and> ptr (stream l) = lbegin l \<and> child l = 0 \<and> skipped l = 0
     \<and> doc l = doc_invalid"
  using assms
  by (auto simp: load_level_def level_new_def Let_def split: sum.splits if_splits prod.splits)

lemma load_levels_fresh:
  assumes "load_levels sn k stp inp lv = Inr (lv1, inp1)"
    and "\<forall>l\<in>set lv. ptr (stream l) = lbegin l \<and> child l = 0 \<and> skipped l = 0 \<and> doc l = doc_invalid"
  shows "\<forall>l\<in>set lv1. ptr (stream l) = lbegin l \<and> child l = 0 \<and> skipped l = 0 \<and> doc l = doc_invalid"
  using assms
proof (induction k arbitrary: stp inp lv)
  case 0
  then show ?case by simp
next
  case (Suc k)
  from Suc.prems(1) obtain lv0 where lv0: "load_level lv inp stp = Inr lv0"
    by (cases "load_level lv inp stp") auto
  with Suc.prems(1) have sn: "sn \<noteq> 0"
    and rest: "load_levels sn k (stp div sn) (inp\<lparr>ptr := lend (last lv0)\<rparr>) lv0 = Inr (lv1, inp1)"
    by (auto simp: Let_def split: if_splits)
  from load_level_fresh [OF lv0] Suc.prems(2)
  have "\<forall>l\<in>set lv0. ptr (stream l) = lbegin l \<and> child l = 0 \<and> skipped l = 0 \<and> doc l = doc_invalid"
    by auto
  from Suc.IH [OF rest this] show ?case .
qed

lemma reader_prepare_fresh:
  assumes "reader_prepare (skip_reader_new skip_0 skip_n) inp rd = Inr r"
  shows "\<forall>i<length (r_levels r).
     ptr (stream (r_levels r ! i)) = lbegin (r_levels r ! i) \<and> skipped (r_levels r ! i) = 0
     \<and> doc (r_levels r ! i) = doc_invalid
     \<and> child (r_levels r ! i) = (if Suc i = length (r_levels r) then UNDEFINED else 0)"
proof -
  from assms obtain n in1 where n: "read_vint inp = Inr (n, in1)"
    by (cases "read_vint inp") (auto simp: reader_prepare_def)
  show ?thesis
  proof (cases "n = 0")
    case True
    with assms n have "r_levels r = []" by (auto simp: reader_prepare_def skip_reader_new_def)
    then show ?thesis by simp
  next
    case False
    from assms n False obtain stp lv in2 lv1 where
      a: "load_levels skip_n (n - 1) stp in1 [] = Inr (lv, in2)"
      and b: "load_level lv in2 skip_0 = Inr lv1"
      and c: "r_levels r = butlast lv1 @ [(last lv1)\<lparr>child := UNDEFINED\<rparr>]"
      by (auto simp: reader_prepare_def skip_reader_new_def Let_def split: sum.splits)
    from load_levels_fresh [OF a]
    have f: "\<forall>l\<in>set lv. ptr (stream l) = lbegin l \<and> child l = 0 \<and> skipped l = 0 \<and> doc l = doc_invalid"
      by simp
    from load_level_fresh [OF b] obtain l where l: "lv1 = lv @ [l]" "ptr (stream l) = lbegin l"
      "skipped l = 0" "doc l = doc_invalid" by blast
    from c l have d: "r_levels r = lv @ [l\<lparr>child := UNDEFINED\<rparr>]" by simp
    show ?thesis
    proof (intro allI impI)
      fix i assume "i < length (r_levels r)"
      with d have "i < length lv \<or> i = length lv" by auto
      then show "ptr (stream (r_levels r ! i)) = lbegin (r_levels r ! i) \<and> skipped (r_levels r ! i) = 0
         \<and> doc (r_levels r ! i) = doc_invalid
         \<and> child (r_levels r ! i) = (if Suc i = length (r_levels r) then UNDEFINED else 0)"
      proof
        assume i: "i < length lv"
        then have "lv ! i \<in> set lv" by simp
        with f i d show ?thesis by (simp add: nth_append)
      next
        assume "i = length lv"
        with l d show ?thesis by simp
      qed
    qed
  qed
qed

lemma level_reset_restores:
  assumes "data (stream l1) = data (stream l)" "lbegin l1 = lbegin l" "lend l1 = lend l"
    "step l1 = step l" "ptr (stream l) = lbegin l" "skipped l = 0" "doc l = doc_invalid"
    "child l = (if child l1 = UNDEFINED then UNDEFINED else 0)"
    "level.more l1 = level.more l" "index_input.more (stream l1) = index_input.more (stream l)"
  shows "level_reset l1 = l"
proof -
  have "stream (level_reset l1) = stream l"
    using assms by (intro index_input.equality) (simp_all add: level_reset_def)
  then show ?thesis
    using assms by (intro level.equality) (simp_all add: level_reset_def)
qed


lemma seeks_shape:
  assumes "seeks r ts = Some (Inr (ss, r1))"
  shows "\<exists>ls. r1 = r\<lparr>r_levels := ls\<rparr> \<and> length ls = length (r_levels r) \<and>
     (\<forall>i<length ls. data (stream (ls ! i)) = data (stream (r_levels r ! i))
        \<and> lbegin (ls ! i) = lbegin (r_levels r ! i) \<and> lend (ls ! i) = lend (r_levels r ! i)
        \<and> step (ls ! i) = step (r_levels r ! i)
        \<and> (child (r_levels r ! i) = UNDEFINED \<longrightarrow> child (ls ! i) = UNDEFINED))"
proof -
  let ?P = "\<lambda>l l1. data (stream l1) = data (stream l) \<and> lbegin l1 = lbegin l \<and> lend l1 = lend l
     \<and> step l1 = step l \<and> (child l = UNDEFINED \<longrightarrow> child l1 = UNDEFINED)"
  have refl: "\<forall>l. ?P l l" by simp
  have trans: "\<forall>a b c. ?P a b \<longrightarrow> ?P b c \<longrightarrow> ?P a c" by simp
  have rs: "\<forall>n l l1. read_skip (r_read r) n l = Inr l1 \<longrightarrow> ?P l l1"
    using read_skip_shape by blast
  have ss: "\<forall>l p sk l1. seek_skip l p sk = Inr l1 \<longrightarrow> ?P l l1"
    using seek_skip_shape by blast
  from seeks_rel [of ?P, OF refl trans rs ss assms]
  obtain ls where r1: "r1 = r\<lparr>r_levels := ls\<rparr>" and p: "list_all2 ?P (r_levels r) ls" by blast
  from p have "length ls = length (r_levels r) \<and>
     (\<forall>i<length ls. data (stream (ls ! i)) = data (stream (r_levels r ! i))
        \<and> lbegin (ls ! i) = lbegin (r_levels r ! i) \<and> lend (ls ! i) = lend (r_levels r ! i)
        \<and> step (ls ! i) = step (r_levels r ! i)
        \<and> (child (r_levels r ! i) = UNDEFINED \<longrightarrow> child (ls ! i) = UNDEFINED))"
    by (simp add: list_all2_conv_all_nth)
  with r1 show ?thesis by blast
qed

lemma reader_prepare_as_new:
  assumes "r_levels r0 = [] \<or> (\<forall>in1. read_vint inp \<noteq> Inr (0, in1))"
  shows "reader_prepare r0 inp rd =
     reader_prepare (skip_reader_new (r_skip_0 r0) (r_skip_n r0)) inp rd"
proof (cases "read_vint inp")
  case (Inl e)
  then show ?thesis by (simp add: reader_prepare_def)
next
  case (Inr p)
  obtain n in1 where p: "p = (n, in1)" by (cases p)
  show ?thesis
  proof (cases "n = 0")
    case True
    with Inr p assms have "r_levels r0 = []" by simp
    then have "r0\<lparr>r_read := rd\<rparr> = (skip_reader_new (r_skip_0 r0) (r_skip_n r0))\<lparr>r_read := rd\<rparr>"
      by (cases r0) (simp add: skip_reader_new_def)
    with Inr p True show ?thesis by (simp add: reader_prepare_def)
  next
    case False
    have "\<And>ls. r0\<lparr>r_levels := ls, r_read := rd\<rparr> =
        (skip_reader_new (r_skip_0 r0) (r_skip_n r0))\<lparr>r_levels := ls, r_read := rd\<rparr>"
      by (cases r0) (simp add: skip_reader_new_def)
    with Inr p False show ?thesis
      by (simp add: reader_prepare_def skip_reader_new_def Let_def split: sum.splits prod.splits)
  qed
qed

text \<open>
  C8. \<^verbatim>\<open>reset()\<close> leaves a child offset that equals \<^verbatim>\<open>UNDEFINED\<close> as it is, and \<^verbatim>\<open>prepare\<close> over a
  level count of zero leaves the levels of an earlier load as they are. For a reader \<open>r\<close>
  whose levels \<^verbatim>\<open>prepare\<close> has loaded from the bytes at hand (the reader held no levels before,
  as a newly constructed one, or the level count read is not zero), and any state reached
  from it by \<^verbatim>\<open>seek\<close> calls in which no level but the last has the child offset \<^verbatim>\<open>UNDEFINED\<close>,
  \<^verbatim>\<open>reset()\<close> gives back exactly the reader as it was loaded, which is the reader a newly
  constructed reader with the same parameters loads from the same bytes; every sequence of
  \<^verbatim>\<open>seek\<close> calls after it therefore gives the results and the states it gives on the
  freshly loaded reader.
\<close>

theorem reset_restores_loaded_reader:
  assumes load: "reader_prepare r0 inp rd = Inr r"
    and loaded: "r_levels r0 = [] \<or> (\<forall>in1. read_vint inp \<noteq> Inr (0, in1))"
    and run: "seeks r ts = Some (Inr (ss, r1))"
    and und: "list_all (\<lambda>l. child l \<noteq> UNDEFINED) (butlast (r_levels r1))"
  shows "reader_prepare (skip_reader_new (r_skip_0 r0) (r_skip_n r0)) inp rd = Inr r
     \<and> reader_reset r1 = r \<and> (\<forall>ts2. seeks (reader_reset r1) ts2 = seeks r ts2)"
proof -
  from load reader_prepare_as_new [OF loaded, of rd]
  have new: "reader_prepare (skip_reader_new (r_skip_0 r0) (r_skip_n r0)) inp rd = Inr r" by simp
  from seeks_shape [OF run] obtain ls where r1: "r1 = r\<lparr>r_levels := ls\<rparr>"
    and len: "length ls = length (r_levels r)"
    and sh: "\<forall>i<length ls. data (stream (ls ! i)) = data (stream (r_levels r ! i))
        \<and> lbegin (ls ! i) = lbegin (r_levels r ! i) \<and> lend (ls ! i) = lend (r_levels r ! i)
        \<and> step (ls ! i) = step (r_levels r ! i)
        \<and> (child (r_levels r ! i) = UNDEFINED \<longrightarrow> child (ls ! i) = UNDEFINED)"
    by blast
  note fresh = reader_prepare_fresh [OF new]
  from und r1 have und1: "\<forall>i<length ls - 1. child (ls ! i) \<noteq> UNDEFINED"
    by (simp add: list_all_length nth_butlast)
  have "map level_reset ls = r_levels r"
  proof (rule nth_equalityI)
    show "length (map level_reset ls) = length (r_levels r)" using len by simp
  next
    fix i assume "i < length (map level_reset ls)"
    then have i: "i < length ls" by simp
    with len have i2: "i < length (r_levels r)" by simp
    have ch: "child (r_levels r ! i) = (if child (ls ! i) = UNDEFINED then UNDEFINED else 0)"
    proof (cases "Suc i = length ls")
      case True
      with fresh i2 len have "child (r_levels r ! i) = UNDEFINED" by simp
      with sh i show ?thesis by simp
    next
      case False
      with i have "i < length ls - 1" by simp
      with und1 have "child (ls ! i) \<noteq> UNDEFINED" by blast
      with fresh i2 len False show ?thesis by simp
    qed
    from sh i have s: "data (stream (ls ! i)) = data (stream (r_levels r ! i))"
      "lbegin (ls ! i) = lbegin (r_levels r ! i)" "lend (ls ! i) = lend (r_levels r ! i)"
      "step (ls ! i) = step (r_levels r ! i)" by blast+
    from fresh i2 have f: "ptr (stream (r_levels r ! i)) = lbegin (r_levels r ! i)"
      "skipped (r_levels r ! i) = 0" "doc (r_levels r ! i) = doc_invalid" by blast+
    have "level_reset (ls ! i) = r_levels r ! i"
      by (rule level_reset_restores [OF s(1) s(2) s(3) s(4) f(1) f(2) f(3) ch]) simp_all
    with i show "map level_reset ls ! i = r_levels r ! i" by simp
  qed
  with r1 have "reader_reset r1 = r" by (simp add: reader_reset_def)
  with new show ?thesis by simp
qed

lemma example_prepare:
  "reader_prepare (skip_reader_new 2 2) \<lparr>data = example_bytes, ptr = 0\<rparr> read_doc = Inr example_reader"
  using example_load by (simp add: load_skip_list_def)

lemma example_count: "read_vint \<lparr>data = example_bytes, ptr = 0\<rparr> = Inr (4, \<lparr>data = example_bytes, ptr = 1\<rparr>)"
  by (simp add: read_vint_def example_bytes_def)

lemma example_prepare_again:
  "reader_prepare example_reader_10 \<lparr>data = example_bytes, ptr = 0\<rparr> read_doc = Inr example_reader"
proof -
  have "r_levels example_reader_10 = [] \<or>
      (\<forall>in1. read_vint \<lparr>data = example_bytes, ptr = 0\<rparr> \<noteq> Inr (0, in1))"
    by (simp add: example_count)
  from reader_prepare_as_new [OF this, of read_doc] example_prepare show ?thesis
    by (simp add: example_reader_10_def example_reader_def skip_reader_new_def)
qed

theorem reset_restores_loaded_reader_witness:
  "reader_prepare example_reader_10 \<lparr>data = example_bytes, ptr = 0\<rparr> read_doc = Inr example_reader \<and>
   read_vint \<lparr>data = example_bytes, ptr = 0\<rparr> = Inr (4, \<lparr>data = example_bytes, ptr = 1\<rparr>) \<and>
   seeks example_reader [2, 10] = Some (Inr ([2, 10], example_reader_10)) \<and>
   list_all (\<lambda>l. child l \<noteq> UNDEFINED) (butlast (r_levels example_reader_10)) \<and>
   reader_prepare (skip_reader_new 2 2) \<lparr>data = example_bytes, ptr = 0\<rparr> read_doc = Inr example_reader \<and>
   reader_reset example_reader_10 = example_reader \<and>
   seeks (reader_reset example_reader_10) [2, 10] = Some (Inr ([2, 10], example_reader_10))"
proof -
  have h: "list_all (\<lambda>l. child l \<noteq> UNDEFINED) (butlast (r_levels example_reader_10))"
    by (simp add: example_reader_10_def example_level_def UNDEFINED_def)
  have l: "r_levels example_reader_10 = [] \<or>
      (\<forall>in1. read_vint \<lparr>data = example_bytes, ptr = 0\<rparr> \<noteq> Inr (0, in1))"
    by (simp add: example_count)
  have p: "r_skip_0 example_reader_10 = 2" "r_skip_n example_reader_10 = 2"
    by (simp_all add: example_reader_10_def example_reader_def skip_reader_new_def)
  from reset_restores_loaded_reader [OF example_prepare_again l example_seeks h]
    example_prepare_again example_count example_seeks h p
  show ?thesis by simp
qed

text \<open>
  The claim as stated fails in two ways. On the crafted skip list \<^verbatim>\<open>seek(2)\<close> reads the child
  offset \<open>2 ^ 64 - 1\<close> on level 1, \<^verbatim>\<open>reset()\<close> then leaves that child where the freshly loaded
  reader has 0, and the same \<^verbatim>\<open>seek(2)\<close> after the reset ends in another state than on
  the freshly loaded reader (the cursor of level 1 at 3 and not at 13). And a reader that
  holds the levels of the worked example and is prepared again over the single byte 0 (a
  level count of zero, as \<^verbatim>\<open>flush\<close> writes it when no level was filled) keeps these levels:
  after \<^verbatim>\<open>reset()\<close> the call \<^verbatim>\<open>seek(10)\<close> returns 10, where on a reader freshly loaded from
  that byte the assertion of \<^verbatim>\<open>seek\<close> fails.
\<close>

lemma crafted_seek_2: "seek crafted_reader 2 = Some (Inr (2, crafted_reader_2))"
  by (simp add: seek_eval crafted_reader_def crafted_reader_2_def crafted_level_def crafted_bytes_def)

lemma example_prepare_zero:
  "reader_prepare example_reader_10 \<lparr>data = [0], ptr = 0\<rparr> read_doc = Inr example_reader_10"
  by (simp add: reader_prepare_def read_vint_def example_reader_10_def example_reader_def
      skip_reader_new_def)

lemma example_reset_10: "reader_reset example_reader_10 = example_reader"
  by (simp add: reader_reset_def level_reset_def example_reader_10_def example_reader_def
      example_level_def UNDEFINED_def doc_invalid_def)

theorem reset_counterexample:
  "load_skip_list 2 2 crafted_bytes = Inr crafted_reader \<and>
   seek crafted_reader 2 = Some (Inr (2, crafted_reader_2)) \<and>
   reader_reset crafted_reader_2 \<noteq> crafted_reader \<and>
   seek (reader_reset crafted_reader_2) 2 \<noteq> seek crafted_reader 2 \<and>
   reader_prepare example_reader_10 \<lparr>data = [0], ptr = 0\<rparr> read_doc = Inr example_reader_10 \<and>
   seek (reader_reset example_reader_10) 10 = Some (Inr (10, example_reader_10)) \<and>
   load_skip_list 2 2 [0] = Inr ((skip_reader_new 2 2)\<lparr>r_read := read_doc\<rparr>) \<and>
   seek ((skip_reader_new 2 2)\<lparr>r_read := read_doc\<rparr>) 10 = Some (Inl Assertion)"
proof -
  have a: "reader_reset crafted_reader_2 \<noteq> crafted_reader"
    by (simp add: reader_reset_def level_reset_def crafted_reader_def crafted_reader_2_def
        crafted_level_def UNDEFINED_def)
  have b: "seek (reader_reset crafted_reader_2) 2 =
     Some (Inr (2, crafted_reader\<lparr>r_levels :=
        [crafted_level 3 2 13 UNDEFINED 4 4 3, crafted_level 16 14 16 UNDEFINED 2 4 3]\<rparr>))"
    by (simp add: seek_eval reader_reset_def level_reset_def crafted_reader_def crafted_reader_2_def
        crafted_level_def crafted_bytes_def)
  have c: "seek (reader_reset crafted_reader_2) 2 \<noteq> seek crafted_reader 2"
    unfolding b crafted_seek_2
    by (simp add: crafted_reader_def crafted_reader_2_def crafted_level_def)
  have d: "seek (reader_reset example_reader_10) 10 = Some (Inr (10, example_reader_10))"
    unfolding example_reset_10 by (rule example_seek_10)
  have e: "load_skip_list 2 2 [0] = Inr ((skip_reader_new 2 2)\<lparr>r_read := read_doc\<rparr>)"
    by (simp add: load_skip_list_def reader_prepare_def read_vint_def skip_reader_new_def)
  have f: "seek ((skip_reader_new 2 2)\<lparr>r_read := read_doc\<rparr>) 10 = Some (Inl Assertion)"
    by (simp add: seek_def skip_reader_new_def)
  from crafted_load crafted_seek_2 a c example_prepare_zero d e f show ?thesis by simp
qed


section \<open>The levels the writer fills\<close>

lemma write_vlong_nonempty: "write_vlong v \<noteq> []"
  by (simp add: write_vlong_def vencode_nonempty)

lemma skip_levels_filled:
  "\<exists>k\<le>length ls. length (skip_levels wr sn count num ch ls) = length ls
     \<and> (\<forall>i<k. skip_levels wr sn count num ch ls ! i \<noteq> [])
     \<and> (\<forall>i. k \<le> i \<longrightarrow> skip_levels wr sn count num ch ls ! i = ls ! i)"
proof (induction ls arbitrary: count num ch)
  case Nil
  then show ?case by simp
next
  case (Cons l ls)
  show ?case
  proof (cases "count mod sn = 0")
    case False
    then have "0 \<le> length (l # ls) \<and> length (skip_levels wr sn count num ch (l # ls)) = length (l # ls)
     \<and> (\<forall>i<0. skip_levels wr sn count num ch (l # ls) ! i \<noteq> [])
     \<and> (\<forall>i. 0 \<le> i \<longrightarrow> skip_levels wr sn count num ch (l # ls) ! i = (l # ls) ! i)"
      by simp
    then show ?thesis by blast
  next
    case True
    define rest where "rest = skip_levels wr sn (count div sn) (num + 1) (length (l @ wr (num + 1))) ls"
    from Cons.IH [of "count div sn" "num + 1" "length (l @ wr (num + 1))"]
    obtain k where k: "k \<le> length ls" "length rest = length ls" "\<forall>i<k. rest ! i \<noteq> []"
      "\<forall>i. k \<le> i \<longrightarrow> rest ! i = ls ! i"
      unfolding rest_def by blast
    have eq: "skip_levels wr sn count num ch (l # ls) = (l @ wr (num + 1) @ write_vlong ch) # rest"
      using True by (simp add: Let_def rest_def)
    have a: "\<forall>i<Suc k. ((l @ wr (num + 1) @ write_vlong ch) # rest) ! i \<noteq> []"
      using k(3) by (auto simp: nth_Cons write_vlong_nonempty split: nat.splits)
    have b: "\<forall>i. Suc k \<le> i \<longrightarrow> ((l @ wr (num + 1) @ write_vlong ch) # rest) ! i = (l # ls) ! i"
      using k(4) by (auto simp: nth_Cons split: nat.splits)
    from k(1) k(2) a b have "Suc k \<le> length (l # ls)
       \<and> length ((l @ wr (num + 1) @ write_vlong ch) # rest) = length (l # ls)
       \<and> (\<forall>i<Suc k. ((l @ wr (num + 1) @ write_vlong ch) # rest) ! i \<noteq> [])
       \<and> (\<forall>i. Suc k \<le> i \<longrightarrow> ((l @ wr (num + 1) @ write_vlong ch) # rest) ! i = (l # ls) ! i)"
      by simp
    then show ?thesis unfolding eq by blast
  qed
qed

lemma skip_prefix_filled:
  assumes cb: "w_write w env 0 \<noteq> []" and inv: "prefix_filled (w_levels w)"
    and run: "skip w env count = Inr w1"
  shows "prefix_filled (w_levels w1) \<and> w_write w1 = w_write w \<and> length (w_levels w1) = length (w_levels w)"
proof (cases "w_levels w")
  case Nil
  with run show ?thesis by (simp add: skip_def)
next
  case (Cons l0 ls)
  show ?thesis
  proof (cases "count mod w_skip_0 w = 0")
    case False
    with run Cons inv show ?thesis by (auto simp: skip_def split: if_splits)
  next
    case True
    define s0 where "s0 = l0 @ w_write w env 0"
    define rest where "rest = skip_levels (w_write w env) (w_skip_n w) (count div w_skip_0 w) 0 (length s0) ls"
    from run Cons True have w1: "w1 = w\<lparr>w_levels := s0 # rest\<rparr>"
      by (auto simp: skip_def Let_def s0_def rest_def split: if_splits)
    from skip_levels_filled [of ls "w_write w env" "w_skip_n w" "count div w_skip_0 w" 0 "length s0"]
    obtain k where k: "k \<le> length ls" "length rest = length ls" "\<forall>i<k. rest ! i \<noteq> []"
      "\<forall>i. k \<le> i \<longrightarrow> rest ! i = ls ! i"
      unfolding rest_def by blast
    have s0: "s0 \<noteq> []" using cb by (simp add: s0_def)
    have new: "\<And>i. i \<le> k \<Longrightarrow> (s0 # rest) ! i \<noteq> []"
      using k(3) s0 by (auto simp: nth_Cons split: nat.splits)
    have old: "\<And>i. k < i \<Longrightarrow> (s0 # rest) ! i = (l0 # ls) ! i"
      using k(4) by (auto simp: nth_Cons split: nat.splits)
    have "prefix_filled (s0 # rest)"
      unfolding prefix_filled_def
    proof (intro allI impI)
      fix i j assume a: "i \<le> j \<and> j < length (s0 # rest) \<and> (s0 # rest) ! j \<noteq> []"
      show "(s0 # rest) ! i \<noteq> []"
      proof (cases "i \<le> k")
        case True
        then show ?thesis by (rule new)
      next
        case False
        then have ki: "k < i" and kj: "k < j" using a by simp_all
        from a k(2) have "j < length (l0 # ls)" by simp
        moreover from a old [OF kj] have "(l0 # ls) ! j \<noteq> []" by simp
        ultimately have "(l0 # ls) ! i \<noteq> []"
          using inv a unfolding prefix_filled_def Cons by blast
        with old [OF ki] show ?thesis by simp
      qed
    qed
    with w1 k(2) Cons show ?thesis by simp
  qed
qed

lemma skips_prefix_filled:
  assumes "\<forall>env. w_write w env 0 \<noteq> []" and "prefix_filled (w_levels w)"
    and "skips w cs = Inr w1"
  shows "prefix_filled (w_levels w1) \<and> length (w_levels w1) = length (w_levels w)"
  using assms
proof (induction cs arbitrary: w)
  case Nil
  then show ?case by simp
next
  case (Cons c cs)
  from Cons.prems(3) obtain w0 where w0: "skip w (fst c) (snd c) = Inr w0" and rest: "skips w0 cs = Inr w1"
    by (cases "skip w (fst c) (snd c)") auto
  from Cons.prems(1) have "w_write w (fst c) 0 \<noteq> []" by blast
  from skip_prefix_filled [OF this Cons.prems(2) w0] Cons.prems(1)
  have "\<forall>env. w_write w0 env 0 \<noteq> []" "prefix_filled (w_levels w0)" "length (w_levels w0) = length (w_levels w)"
    by simp_all
  with Cons.IH [OF _ _ rest] show ?case by simp
qed

lemma prefix_filled_dropWhile:
  assumes "prefix_filled ls"
  shows "[] \<notin> set (dropWhile (\<lambda>l. length l = 0) (rev ls))"
proof
  assume "[] \<in> set (dropWhile (\<lambda>l. length l = 0) (rev ls))"
  then obtain t where t: "t < length (dropWhile (\<lambda>l. length l = 0) (rev ls))"
    "dropWhile (\<lambda>l. length l = 0) (rev ls) ! t = []"
    by (auto simp: in_set_conv_nth)
  define m where "m = length (takeWhile (\<lambda>l. length l = 0) (rev ls))"
  have len: "m + length (dropWhile (\<lambda>l. length l = 0) (rev ls)) = length ls"
    unfolding m_def by (metis length_append length_rev takeWhile_dropWhile_id)
  have nth: "\<And>u. u < length (dropWhile (\<lambda>l. length l = 0) (rev ls)) \<Longrightarrow>
      dropWhile (\<lambda>l. length l = 0) (rev ls) ! u = ls ! (length ls - 1 - (m + u))"
  proof -
    fix u assume u: "u < length (dropWhile (\<lambda>l. length l = 0) (rev ls))"
    have "dropWhile (\<lambda>l. length l = 0) (rev ls) ! u = rev ls ! (m + u)"
      unfolding m_def using u by (simp add: dropWhile_nth add.commute)
    also have "\<dots> = ls ! (length ls - 1 - (m + u))" using u len by (simp add: rev_nth)
    finally show "dropWhile (\<lambda>l. length l = 0) (rev ls) ! u = ls ! (length ls - 1 - (m + u))" .
  qed
  from t(1) have pos: "0 < length (dropWhile (\<lambda>l. length l = 0) (rev ls))" by linarith
  then have "dropWhile (\<lambda>l. length l = 0) (rev ls) \<noteq> []" by fastforce
  then have "\<not> length (hd (dropWhile (\<lambda>l. length l = 0) (rev ls))) = 0"
    by (rule hd_dropWhile)
  then have "dropWhile (\<lambda>l. length l = 0) (rev ls) ! 0 \<noteq> []"
    using pos by (simp add: hd_conv_nth)
  with nth [OF pos] have top: "ls ! (length ls - 1 - m) \<noteq> []" by simp
  from nth [OF t(1)] t(2) have low: "ls ! (length ls - 1 - (m + t)) = []" by simp
  from len t(1) have "length ls - 1 - (m + t) \<le> length ls - 1 - m \<and> length ls - 1 - m < length ls"
    by linarith
  with assms top have "ls ! (length ls - 1 - (m + t)) \<noteq> []"
    unfolding prefix_filled_def by blast
  with low show False by simp
qed


section \<open>Loading what flush wrote\<close>

lemma drop_append_eq: "drop p d = a @ b \<Longrightarrow> drop (p + length a) d = b"
  by (metis add.commute append_eq_conv_conj drop_drop)

lemma drop_length_le: "drop p d = a @ b \<Longrightarrow> a \<noteq> [] \<Longrightarrow> p + length a \<le> length d"
proof -
  assume a: "drop p d = a @ b" "a \<noteq> []"
  then have "length (drop p d) = length a + length b" by simp
  moreover from a have "drop p d \<noteq> []" by simp
  then have "p < length d" by simp
  ultimately show ?thesis by simp
qed

lemma index_input_ptr_update: "(inp :: index_input)\<lparr>ptr := p\<rparr> = \<lparr>data = data inp, ptr = p\<rparr>"
  by (cases inp) simp

lemma load_level_at:
  assumes d: "drop (ptr inp) (data inp) = write_vlong (length l) @ l @ rest"
    and ne: "l \<noteq> []" and sz: "length (data inp) < 2 ^ 64"
  shows "load_level lv inp stp =
     Inr (lv @ [level_new \<lparr>data = data inp, ptr = ptr inp + length (write_vlong (length l))\<rparr> stp
                 (ptr inp + length (write_vlong (length l)))
                 (ptr inp + length (write_vlong (length l)) + length l)])"
proof -
  from d have "drop (ptr inp) (data inp) = (write_vlong (length l) @ l) @ rest" by simp
  from drop_length_le [OF this] have le: "ptr inp + length (write_vlong (length l)) + length l \<le> length (data inp)"
    by (simp add: write_vlong_nonempty)
  with sz have small: "length l < 2 ^ 64" "ptr inp + length (write_vlong (length l)) + length l < 2 ^ 64"
    by simp_all
  from read_vlong_write_vlong [OF d] small(1)
  have rv: "read_vlong inp = Inr (length l, inp\<lparr>ptr := ptr inp + length (write_vlong (length l))\<rparr>)"
    by simp
  from ne small(2) show ?thesis
    by (simp add: load_level_def rv Let_def u64_def index_input_ptr_update)
qed

lemma load_levels_at:
  assumes "drop (ptr inp) (data inp) = concat (map (\<lambda>l. write_vlong (length l) @ l) ls) @ rest"
    and "\<forall>l\<in>set ls. l \<noteq> []" and "length (data inp) < 2 ^ 64"
  shows "load_levels sn (length ls) stp inp lv =
     (if sn = 0 \<and> ls \<noteq> [] then Inl DivByZero
      else Inr (lv @ layout (data inp) (ptr inp) sn stp ls,
                inp\<lparr>ptr := ptr inp + length (concat (map (\<lambda>l. write_vlong (length l) @ l) ls))\<rparr>))"
  using assms
proof (induction ls arbitrary: inp stp lv)
  case Nil
  then show ?case by simp
next
  case (Cons l ls)
  define hl where "hl = length (write_vlong (length l))"
  from Cons.prems(1) have d: "drop (ptr inp) (data inp) =
      write_vlong (length l) @ l @ (concat (map (\<lambda>l. write_vlong (length l) @ l) ls) @ rest)"
    by simp
  from Cons.prems(2) have ne: "l \<noteq> []" by simp
  note ll = load_level_at [OF d ne Cons.prems(3), of lv stp]
  show ?case
  proof (cases "sn = 0")
    case True
    with ll show ?thesis by (simp add: Let_def)
  next
    case False
    let ?inp1 = "inp\<lparr>ptr := ptr inp + hl + length l\<rparr>"
    from Cons.prems(1) have "drop (ptr inp) (data inp) =
      (write_vlong (length l) @ l) @ (concat (map (\<lambda>l. write_vlong (length l) @ l) ls) @ rest)"
      by simp
    from drop_append_eq [OF this]
    have d1: "drop (ptr ?inp1) (data ?inp1) = concat (map (\<lambda>l. write_vlong (length l) @ l) ls) @ rest"
      by (simp add: hl_def add.assoc)
    from Cons.prems(2) have ne1: "\<forall>l\<in>set ls. l \<noteq> []" by simp
    from Cons.prems(3) have sz1: "length (data ?inp1) < 2 ^ 64" by simp
    note ih = Cons.IH [OF d1 ne1 sz1, of "stp div sn"
        "lv @ [level_new \<lparr>data = data inp, ptr = ptr inp + hl\<rparr> stp (ptr inp + hl) (ptr inp + hl + length l)]"]
    from False ll ih show ?thesis
      by (simp add: Let_def hl_def level_new_def add.assoc)
  qed
qed


lemma flush_prefix_filled:
  assumes "prefix_filled (w_levels w)"
  shows "flush w out = Inr (out @ write_vint (length (dropWhile (\<lambda>l. length l = 0) (rev (w_levels w)))) @
           concat (map (\<lambda>l. write_vlong (length l) @ l) (dropWhile (\<lambda>l. length l = 0) (rev (w_levels w)))))"
  using prefix_filled_dropWhile [OF assms] by (simp add: flush_def Let_def)

lemma flushed_never_index_error:
  assumes ne: "[] \<notin> set ls" and sz: "length (out @ write_vint (length ls) @
           concat (map (\<lambda>l. write_vlong (length l) @ l) ls)) < 2 ^ 64"
  shows "reader_prepare r \<lparr>data = out @ write_vint (length ls) @
           concat (map (\<lambda>l. write_vlong (length l) @ l) ls), ptr = length out\<rparr> rd \<noteq> Inl IndexError"
proof
  let ?body = "\<lambda>ls. concat (map (\<lambda>l. write_vlong (length l) @ l) ls)"
  define bytes where "bytes = out @ write_vint (length ls) @ ?body ls"
  define inp where "inp = \<lparr>data = bytes, ptr = length out\<rparr>"
  assume "reader_prepare r \<lparr>data = out @ write_vint (length ls) @ ?body ls, ptr = length out\<rparr> rd = Inl IndexError"
  then have "reader_prepare r inp rd = Inl IndexError" by (simp add: inp_def bytes_def)
  then obtain n in1 j lv1 inp1 s1 where n: "read_vint inp = Inr (n, in1)" and j: "j < n"
    and ld: "load_levels (r_skip_n r) j (u64 (r_skip_0 r * pow_size_t (r_skip_n r) (n - 1))) in1 [] = Inr (lv1, inp1)"
    and z: "read_vlong inp1 = Inr (0, s1)"
    unfolding reader_prepare_index_error by blast
  have "drop (ptr inp) (data inp) = write_vint (length ls) @ ?body ls"
    by (simp add: inp_def bytes_def)
  from read_vint_write_vint [OF this] n
  have n1: "n = length ls mod 2 ^ 32" and in1: "in1 = inp\<lparr>ptr := length out + length (write_vint (length ls))\<rparr>"
    by (simp_all add: inp_def)
  from n1 have "n \<le> length ls" by simp
  with j have jl: "j < length ls" by simp
  have split: "?body ls = ?body (take j ls) @ ?body (drop j ls)"
    by (metis append_take_drop_id concat_append map_append)
  have d1: "drop (ptr in1) (data in1) = ?body (take j ls) @ ?body (drop j ls)"
    unfolding in1 using split by (simp add: inp_def bytes_def)
  have ne1: "\<forall>l\<in>set (take j ls). l \<noteq> []" using ne by (metis in_set_takeD)
  have sz1: "length (data in1) < 2 ^ 64" unfolding in1 using sz by (simp add: inp_def bytes_def)
  from load_levels_at [OF d1 ne1 sz1, of "r_skip_n r" "u64 (r_skip_0 r * pow_size_t (r_skip_n r) (n - 1))" "[]"] ld jl
  have inp1: "inp1 = in1\<lparr>ptr := ptr in1 + length (?body (take j ls))\<rparr>"
    by (simp add: min_absorb2 split: if_splits)
  from d1 have "drop (ptr in1 + length (?body (take j ls))) (data in1) = ?body (drop j ls)"
    by (rule drop_append_eq)
  moreover from jl have "drop j ls = ls ! j # drop (Suc j) ls" by (simp add: Cons_nth_drop_Suc)
  ultimately have d2: "drop (ptr inp1) (data inp1) =
      write_vlong (length (ls ! j)) @ (ls ! j) @ ?body (drop (Suc j) ls)"
    unfolding inp1 by simp
  from jl ne have nej: "ls ! j \<noteq> []" by (metis nth_mem)
  from d2 have "drop (ptr inp1) (data inp1) =
      (write_vlong (length (ls ! j)) @ (ls ! j)) @ ?body (drop (Suc j) ls)" by simp
  from drop_length_le [OF this] sz1 have "length (ls ! j) < 2 ^ 64"
    unfolding inp1 by (simp add: write_vlong_nonempty)
  with read_vlong_write_vlong [OF d2] z nej show False by simp
qed

text \<open>
  C10. With a write callback that appends at least one byte to level 0 whenever it is
  called, a writer whose filled levels have only filled levels below them (as after
  \<^verbatim>\<open>prepare\<close> of a new writer, with every buffer empty) keeps this through every sequence of
  \<^verbatim>\<open>skip\<close> calls. Then every level \<^verbatim>\<open>flush\<close> emits has a positive length, \<^verbatim>\<open>flush\<close> passes its
  assertion, and the bytes it writes (fewer than \<open>2 ^ 64\<close>) never make \<^verbatim>\<open>prepare\<close> of a
  reader raise the index error.
\<close>

theorem flushed_levels_positive:
  assumes "\<forall>env. w_write w env 0 \<noteq> []" and "prefix_filled (w_levels w)"
    and "skips w cs = Inr w1"
  shows "prefix_filled (w_levels w1)
     \<and> [] \<notin> set (dropWhile (\<lambda>l. length l = 0) (rev (w_levels w1)))
     \<and> (\<exists>bytes. flush w1 out = Inr bytes \<and>
          (length bytes < 2 ^ 64 \<longrightarrow>
             (\<forall>r rd. reader_prepare r \<lparr>data = bytes, ptr = length out\<rparr> rd \<noteq> Inl IndexError)))"
proof -
  from skips_prefix_filled [OF assms] have pf: "prefix_filled (w_levels w1)" by simp
  note ne = prefix_filled_dropWhile [OF pf]
  note fl = flush_prefix_filled [OF pf, of out]
  from flushed_never_index_error [OF ne, of out] fl pf ne show ?thesis by simp
qed


lemma prefix_filled_empty: "\<forall>l\<in>set ls. l = [] \<Longrightarrow> prefix_filled ls"
  by (auto simp: prefix_filled_def)

lemma example_writer_prepare:
  "writer_prepare (skip_writer_new 2 2) 4 16 write_doc = Inr example_writer"
  by (simp add: writer_prepare_def max_levels_def math_log.simps resize_def example_writer_def
      skip_writer_new_def)

lemma example_writer_skips:
  "skips example_writer [(1, 2), (3, 4)] = Inr (example_writer\<lparr>w_levels := [[1, 3], [3, 2], [], []]\<rparr>)"
  by (simp add: skip_def example_writer_def skip_writer_new_def write_doc_def write_vlong_def
      vencode_small Let_def)

lemma example_writer_flush:
  "flush (example_writer\<lparr>w_levels := [[1, 3], [3, 2], [], []]\<rparr>) [] = Inr [2, 2, 3, 2, 2, 1, 3]"
  by (simp add: flush_def write_vlong_def write_vint_def vencode_small Let_def)

theorem flushed_levels_positive_witness:
  "(\<forall>env. w_write example_writer env 0 \<noteq> []) \<and> prefix_filled (w_levels example_writer) \<and>
   skips example_writer [(1, 2), (3, 4)] = Inr (example_writer\<lparr>w_levels := [[1, 3], [3, 2], [], []]\<rparr>) \<and>
   prefix_filled [[1, 3], [3, 2], [], []] \<and>
   flush (example_writer\<lparr>w_levels := [[1, 3], [3, 2], [], []]\<rparr>) [] = Inr [2, 2, 3, 2, 2, 1, 3] \<and>
   reader_prepare (skip_reader_new 2 2) \<lparr>data = [2, 2, 3, 2, 2, 1, 3], ptr = 0\<rparr> read_doc \<noteq> Inl IndexError"
proof -
  have h1: "\<forall>env. w_write example_writer env 0 \<noteq> []"
    by (simp add: example_writer_def write_doc_def write_vlong_nonempty)
  have h2: "prefix_filled (w_levels example_writer)"
    by (rule prefix_filled_empty) (simp add: example_writer_def)
  from flushed_levels_positive [OF h1 h2 example_writer_skips, of "[]"] example_writer_flush
  have "prefix_filled [[1, 3], [3, 2], [], []] \<and>
    reader_prepare (skip_reader_new 2 2) \<lparr>data = [2, 2, 3, 2, 2, 1, 3], ptr = 0\<rparr> read_doc \<noteq> Inl IndexError"
    by simp
  with h1 h2 example_writer_skips example_writer_flush show ?thesis by simp
qed

text \<open>
  The claim as stated fails with the default callback, which writes nothing: \<^verbatim>\<open>skip(4)\<close>
  leaves level 0 empty and writes the child offset 0 on level 1, so a filled level has an
  empty level below it, and \<^verbatim>\<open>flush\<close> fails its assertion \<^verbatim>\<open>assert(length)\<close> on level 0 (without
  the assertion it writes the length 0, which the reader rejects).
\<close>

theorem flushed_levels_counterexample:
  "writer_prepare (skip_writer_new 2 2) 4 16 (\<lambda>env n. []) = Inr nop_writer \<and>
   skips nop_writer [((), 4)] = Inr (nop_writer\<lparr>w_levels := [[], [0], [], []]\<rparr>) \<and>
   \<not> prefix_filled [[], [0], [], []] \<and>
   flush (nop_writer\<lparr>w_levels := [[], [0], [], []]\<rparr>) [] = Inl Assertion"
proof -
  have a: "writer_prepare (skip_writer_new 2 2) 4 16 (\<lambda>env n. []) = Inr nop_writer"
    by (simp add: writer_prepare_def max_levels_def math_log.simps resize_def nop_writer_def
      skip_writer_new_def)
  have b: "skips nop_writer [((), 4)] = Inr (nop_writer\<lparr>w_levels := [[], [0], [], []]\<rparr>)"
    by (simp add: skip_def nop_writer_def skip_writer_new_def write_vlong_def vencode_small Let_def)
  have c: "\<not> prefix_filled [[], [0], [], [] :: byte_type list]"
  proof
    assume "prefix_filled [[], [0], [], [] :: byte_type list]"
    then have "(0::nat) \<le> 1 \<and> 1 < length [[], [0], [], [] :: byte_type list]
        \<and> [[], [0], [], [] :: byte_type list] ! 1 \<noteq> [] \<longrightarrow> [[], [0], [], [] :: byte_type list] ! 0 \<noteq> []"
      unfolding prefix_filled_def by blast
    then show False by simp
  qed
  have d: "flush (nop_writer\<lparr>w_levels := [[], [0], [], []]\<rparr>) [] = Inl Assertion"
    by (simp add: flush_def Let_def)
  from a b c d show ?thesis by simp
qed

section \<open>Reading the entries of a level\<close>

section \<open>Reading the entries of a level\<close>

lemma enc_nonempty: "enc hc e \<noteq> []"
  by (simp add: enc_def write_vlong_nonempty)

lemma offset_0: "offset hc es 0 = 0"
  by (simp add: offset_def)

lemma offset_Suc:
  "k < length es \<Longrightarrow> offset hc es (Suc k) = offset hc es k + length (enc hc (es ! k))"
  by (simp add: offset_def take_Suc_conv_app_nth)

lemma concat_split_at:
  "k < length es \<Longrightarrow>
   concat (map f es) = concat (map f (take k es)) @ f (es ! k) @ concat (map f (drop (Suc k) es))"
proof -
  assume k: "k < length es"
  then have "es = take k es @ es ! k # drop (Suc k) es" by (simp add: id_take_nth_drop)
  then have "concat (map f es) = concat (map f (take k es @ es ! k # drop (Suc k) es))" by simp
  then show ?thesis by simp
qed

lemma offset_less_end:
  "k < length es \<Longrightarrow> offset hc es k < offset hc es (length es)"
proof -
  assume k: "k < length es"
  have "offset hc es (length es) = length (concat (map (enc hc) es))" by (simp add: offset_def)
  also have "\<dots> = offset hc es k + length (enc hc (es ! k))
      + length (concat (map (enc hc) (drop (Suc k) es)))"
    by (subst concat_split_at [OF k]) (simp add: offset_def)
  finally show ?thesis using enc_nonempty [of hc "es ! k"] by simp
qed

lemma offset_le_end: "k \<le> length es \<Longrightarrow> offset hc es k \<le> offset hc es (length es)"
  using offset_less_end [of k es hc] by (cases "k = length es") simp_all

lemma drop_at_entry:
  assumes "wf_level hc es l" and "k < length es"
  shows "\<exists>rest. drop (lbegin l + offset hc es k) (data (stream l)) = enc hc (es ! k) @ rest"
proof -
  from assms(1) obtain rest where "drop (lbegin l) (data (stream l)) = concat (map (enc hc) es) @ rest"
    by (auto simp: wf_level_def)
  then have "drop (lbegin l) (data (stream l)) =
      concat (map (enc hc) (take k es)) @ (enc hc (es ! k) @ concat (map (enc hc) (drop (Suc k) es)) @ rest)"
    by (simp add: concat_split_at [OF assms(2)])
  from drop_append_eq [OF this]
  have "drop (lbegin l + offset hc es k) (data (stream l)) =
      enc hc (es ! k) @ (concat (map (enc hc) (drop (Suc k) es)) @ rest)"
    by (simp add: offset_def)
  then show ?thesis by blast
qed

lemma read_doc_payload:
  assumes "\<not> level_eof l"
    and "drop (ptr (stream l)) (data (stream l)) = write_vlong (unat d) @ rest"
  shows "read_doc n l = Inr (d, ptr (stream l) + length (write_vlong (unat d)))"
proof -
  have "unat d < 2 ^ LENGTH(64)" by (rule unsigned_less)
  then have "unat d < 2 ^ 64" by simp
  with read_vlong_write_vlong [OF assms(2)] assms(1) show ?thesis
    by (simp add: read_doc_def)
qed

lemma read_skip_entry:
  assumes wf: "wf_level hc es l" and at: "at_entry hc es l k" and k: "k < length es"
  shows "\<exists>l1. read_skip read_doc n l = Inr l1 \<and> doc l1 = fst (es ! k)
     \<and> skipped l1 = Suc k * step l \<and> step l1 = step l
     \<and> (fst (es ! k) \<noteq> doc_eof \<longrightarrow>
          wf_level hc es l1 \<and> at_entry hc es l1 (Suc k)
          \<and> child l1 = (if hc then snd (es ! k) else child l))"
proof -
  define d where "d = fst (es ! k)"
  define ch where "ch = snd (es ! k)"
  define p where "p = lbegin l + offset hc es k"
  define p1 where "p1 = p + length (write_vlong (unat d))"
  from at have ptr: "ptr (stream l) = p" and sk: "skipped l = k * step l"
    by (simp_all add: at_entry_def p_def)
  from wf have hc: "(child l \<noteq> UNDEFINED) = hc" and lend: "lend l = lbegin l + offset hc es (length es)"
    and small: "Suc (length es) * step l < 2 ^ 64" and chs: "list_all (\<lambda>e. snd e < UNDEFINED) es"
    by (simp_all add: wf_level_def)
  from k have "Suc k * step l \<le> Suc (length es) * step l" by (intro mult_le_mono1) simp
  with small have lt: "Suc k * step l < 2 ^ 64" by linarith
  have "skipped l + step l = Suc k * step l" by (simp add: sk)
  then have sk1: "u64 (skipped l + step l) = Suc k * step l"
    unfolding u64_def using lt by simp
  from offset_less_end [OF k, of hc] ptr lend have neof: "\<not> level_eof l"
    by (simp add: level_eof_def p_def)
  from drop_at_entry [OF wf k] obtain rest where
    dr: "drop p (data (stream l)) = write_vlong (unat d) @ (if hc then write_vlong ch else []) @ rest"
    by (auto simp: enc_def p_def d_def ch_def)
  from read_doc_payload [OF neof, of d _ n] dr ptr
  have rd: "read_doc n l = Inr (d, p1)" by (simp add: p1_def)
  from drop_append_eq [OF dr]
  have dr1: "drop p1 (data (stream l)) = (if hc then write_vlong ch else []) @ rest"
    by (simp add: p1_def)
  from chs k have chlt: "ch < UNDEFINED" by (simp add: list_all_length ch_def)
  then have ch64: "ch mod 2 ^ 64 = ch" "ch \<noteq> UNDEFINED" by (simp_all add: UNDEFINED_def)
  show ?thesis
  proof (cases "d \<noteq> doc_eof \<and> hc")
    case True
    let ?s1 = "(stream l)\<lparr>ptr := p1\<rparr>"
    have "drop (ptr ?s1) (data ?s1) = write_vlong ch @ rest" using dr1 True by simp
    from read_vlong_write_vlong [OF this] ch64
    have rv: "read_vlong ?s1 = Inr (ch, ?s1\<lparr>ptr := p1 + length (write_vlong ch)\<rparr>)" by simp
    define l1 where "l1 = l\<lparr>stream := (stream l)\<lparr>ptr := p1 + length (write_vlong ch)\<rparr>, child := ch, doc := d,
        skipped := Suc k * step l\<rparr>"
    have r: "read_skip read_doc n l = Inr l1"
      using True hc rv sk1 by (simp add: read_skip_def rd Let_def l1_def)
    have off: "p1 + length (write_vlong ch) = lbegin l + offset hc es (Suc k)"
      using True by (simp add: offset_Suc [OF k] enc_def p1_def p_def d_def ch_def)
    have w1: "wf_level hc es l1"
      using wf ch64 True by (simp add: wf_level_def l1_def)
    have a1: "at_entry hc es l1 (Suc k)"
      using k off by (simp add: at_entry_def l1_def)
    from r w1 a1 True show ?thesis
      by (simp add: l1_def d_def ch_def)
  next
    case False
    define l1 where "l1 = l\<lparr>stream := (stream l)\<lparr>ptr := p1\<rparr>, doc := d, skipped := Suc k * step l\<rparr>"
    have r: "read_skip read_doc n l = Inr l1"
      using False hc sk1 by (auto simp: read_skip_def rd Let_def l1_def)
    show ?thesis
    proof (cases "d = doc_eof")
      case True
      with r show ?thesis by (simp add: l1_def d_def)
    next
      case ne: False
      with False have nhc: "\<not> hc" by simp
      have off: "p1 = lbegin l + offset hc es (Suc k)"
        using nhc by (simp add: offset_Suc [OF k] enc_def p1_def p_def d_def)
      have w1: "wf_level hc es l1"
        using wf by (simp add: wf_level_def l1_def)
      have a1: "at_entry hc es l1 (Suc k)"
        using k off by (simp add: at_entry_def l1_def)
      from r w1 a1 nhc show ?thesis by (simp add: l1_def d_def)
    qed
  qed
qed

lemma read_skip_end:
  assumes wf: "wf_level hc es l" and at: "at_entry hc es l (length es)"
  shows "read_skip read_doc n l = Inr (l\<lparr>doc := doc_eof, skipped := Suc (length es) * step l\<rparr>)"
proof -
  from at wf have "level_eof l" by (simp add: at_entry_def wf_level_def level_eof_def)
  then have rd: "read_doc n l = Inr (doc_eof, ptr (stream l))" by (simp add: read_doc_def)
  from wf at have "u64 (skipped l + step l) = Suc (length es) * step l"
    by (simp add: wf_level_def at_entry_def u64_def)
  then show ?thesis by (simp add: read_skip_def rd Let_def)
qed

lemma scan_level:
  assumes "wf_level hc es l" and "at_entry hc es l k"
  shows "\<exists>k1 l1 cv.
     (case read_skip read_doc n l of
        Inl e \<Rightarrow> Some (Inl e)
      | Inr la \<Rightarrow> read_until read_doc n target la (child l)) = Some (Inr (l1, cv))
     \<and> k \<le> k1 \<and> k1 \<le> length es
     \<and> (\<forall>i. k \<le> i \<and> i < k1 \<longrightarrow> fst (es ! i) < target)
     \<and> (k1 < length es \<longrightarrow> \<not> fst (es ! k1) < target)
     \<and> skipped l1 = Suc k1 * step l
     \<and> cv = (if k1 = k \<or> \<not> hc then child l else snd (es ! (k1 - 1)))"
  using assms
proof (induction "length es - k" arbitrary: l k rule: less_induct)
  case less
  note wf = less.prems(1) and at = less.prems(2)
  from at have kle: "k \<le> length es" by (simp add: at_entry_def)
  show ?case
  proof (cases "k = length es")
    case True
    let ?la = "l\<lparr>doc := doc_eof, skipped := Suc (length es) * step l\<rparr>"
    from read_skip_end [OF wf] at True
    have r: "read_skip read_doc n l = Inr ?la" by simp
    have u: "read_until read_doc n target ?la (child l) = Some (Inr (?la, child l))"
      by (subst read_until.simps) (simp add: doc_eof_not_less)
    have "(case read_skip read_doc n l of
        Inl e \<Rightarrow> Some (Inl e)
      | Inr la \<Rightarrow> read_until read_doc n target la (child l)) = Some (Inr (?la, child l))
     \<and> k \<le> k \<and> k \<le> length es
     \<and> (\<forall>i. k \<le> i \<and> i < k \<longrightarrow> fst (es ! i) < target)
     \<and> (k < length es \<longrightarrow> \<not> fst (es ! k) < target)
     \<and> skipped ?la = Suc k * step l
     \<and> child l = (if k = k \<or> \<not> hc then child l else snd (es ! (k - 1)))"
      using r u True by auto
    then show ?thesis by blast
  next
    case False
    with kle have k: "k < length es" by simp
    from read_skip_entry [OF wf at k, of n] obtain la where
      r: "read_skip read_doc n l = Inr la" and d: "doc la = fst (es ! k)"
      and sk: "skipped la = Suc k * step l" and st: "step la = step l"
      and nx: "fst (es ! k) \<noteq> doc_eof \<longrightarrow>
          wf_level hc es la \<and> at_entry hc es la (Suc k)
          \<and> child la = (if hc then snd (es ! k) else child l)"
      by blast
    show ?thesis
    proof (cases "fst (es ! k) < target")
      case nlt: False
      have u: "read_until read_doc n target la (child l) = Some (Inr (la, child l))"
        using nlt d by (subst read_until.simps) simp
      have "(case read_skip read_doc n l of
          Inl e \<Rightarrow> Some (Inl e)
        | Inr la \<Rightarrow> read_until read_doc n target la (child l)) = Some (Inr (la, child l))
       \<and> k \<le> k \<and> k \<le> length es
       \<and> (\<forall>i. k \<le> i \<and> i < k \<longrightarrow> fst (es ! i) < target)
       \<and> (k < length es \<longrightarrow> \<not> fst (es ! k) < target)
       \<and> skipped la = Suc k * step l
       \<and> child l = (if k = k \<or> \<not> hc then child l else snd (es ! (k - 1)))"
        using r u nlt sk kle by auto
      then show ?thesis by blast
    next
      case True
      then have "fst (es ! k) \<noteq> doc_eof" using doc_eof_not_less [of target] by auto
      with nx have wf1: "wf_level hc es la" and at1: "at_entry hc es la (Suc k)"
        and ch1: "child la = (if hc then snd (es ! k) else child l)" by simp_all
      have m: "length es - Suc k < length es - k" using k by simp
      from less.hyps [OF m wf1 at1] obtain k1 l1 cv where
        run: "(case read_skip read_doc n la of
            Inl e \<Rightarrow> Some (Inl e)
          | Inr lb \<Rightarrow> read_until read_doc n target lb (child la)) = Some (Inr (l1, cv))"
        and b: "Suc k \<le> k1" "k1 \<le> length es"
        and lo: "\<forall>i. Suc k \<le> i \<and> i < k1 \<longrightarrow> fst (es ! i) < target"
        and hi: "k1 < length es \<longrightarrow> \<not> fst (es ! k1) < target"
        and sk1: "skipped l1 = Suc k1 * step la"
        and cv: "cv = (if k1 = Suc k \<or> \<not> hc then child la else snd (es ! (k1 - 1)))"
        by blast
      have u: "read_until read_doc n target la (child l) = Some (Inr (l1, cv))"
        using True d run by (subst read_until.simps) simp
      have lo1: "\<forall>i. k \<le> i \<and> i < k1 \<longrightarrow> fst (es ! i) < target"
      proof (intro allI impI)
        fix i assume i: "k \<le> i \<and> i < k1"
        show "fst (es ! i) < target"
        proof (cases "i = k")
          case True
          with \<open>fst (es ! k) < target\<close> show ?thesis by simp
        next
          case False
          with i lo show ?thesis by simp
        qed
      qed
      have cv1: "cv = (if k1 = k \<or> \<not> hc then child l else snd (es ! (k1 - 1)))"
        using cv ch1 b(1) by auto
      have "(case read_skip read_doc n l of
          Inl e \<Rightarrow> Some (Inl e)
        | Inr la \<Rightarrow> read_until read_doc n target la (child l)) = Some (Inr (l1, cv))
       \<and> k \<le> k1 \<and> k1 \<le> length es
       \<and> (\<forall>i. k \<le> i \<and> i < k1 \<longrightarrow> fst (es ! i) < target)
       \<and> (k1 < length es \<longrightarrow> \<not> fst (es ! k1) < target)
       \<and> skipped l1 = Suc k1 * step l
       \<and> cv = (if k1 = k \<or> \<not> hc then child l else snd (es ! (k1 - 1)))"
        using r u b lo1 hi sk1 st cv1 by simp
      then show ?thesis by blast
    qed
  qed
qed

lemma sub64_minus: "b \<le> a \<Longrightarrow> a < 2 ^ 64 \<Longrightarrow> sub64 a b = a - b"
proof -
  assume a: "b \<le> a" "a < 2 ^ 64"
  define m :: nat where "m = 2 ^ 64"
  from a have bm: "b < m" "a < m" by (simp_all add: m_def)
  then have b: "b mod m = b" by simp
  have "a + (m - b) = (a - b) + m" using a bm by simp
  then have "(a + (m - b)) mod m = (a - b) mod m" by simp
  also have "\<dots> = a - b" using bm by simp
  finally show ?thesis unfolding sub64_def m_def [symmetric] b .
qed

lemma seek_skip_stay:
  assumes wf: "wf_level hc es l" and fresh: "ptr (stream l) = lbegin l" "skipped l = 0"
  shows "seek_skip l 0 c = Inr l \<and> at_entry hc es l 0"
proof -
  from wf have "lbegin l < 2 ^ 64" by (simp add: wf_level_def)
  then have "u64 (lbegin l + 0) = lbegin l" by (simp add: u64_def)
  with fresh show ?thesis by (simp add: seek_skip_def Let_def at_entry_def offset_0)
qed

lemma seek_skip_entry:
  assumes wf: "wf_level hc es l" and fresh: "ptr (stream l) = lbegin l"
    and k0: "0 < k0" "k0 \<le> length es"
    and cp: "cp = offset hc es (k0 - 1) + length (write_vlong (unat (fst (es ! (k0 - 1)))))"
    and c: "c = k0 * step l"
  shows "\<exists>l1. seek_skip l cp c = Inr l1 \<and> wf_level hc es l1 \<and> at_entry hc es l1 k0
     \<and> step l1 = step l \<and> doc l1 = doc l \<and> child l1 = (if hc then snd (es ! (k0 - 1)) else child l)"
proof -
  define k where "k = k0 - 1"
  from k0 have k: "k < length es" and k0k: "k0 = Suc k" by (simp_all add: k_def)
  define d where "d = fst (es ! k)"
  define ch where "ch = snd (es ! k)"
  from wf have hc: "(child l \<noteq> UNDEFINED) = hc" and lend: "lend l = lbegin l + offset hc es (length es)"
    and small: "lend l < 2 ^ 64" and chs: "list_all (\<lambda>e. snd e < UNDEFINED) es"
    by (simp_all add: wf_level_def)
  have cp1: "cp = offset hc es k + length (write_vlong (unat d))" using cp by (simp add: k_def d_def)
  have "cp \<le> offset hc es (Suc k)" by (simp add: cp1 offset_Suc [OF k] enc_def d_def)
  also have "\<dots> \<le> offset hc es (length es)" using k by (intro offset_le_end) simp
  finally have "lbegin l + cp \<le> lend l" using lend by simp
  with small have abs: "u64 (lbegin l + cp) = lbegin l + cp" by (simp add: u64_def)
  have pos: "0 < cp" using write_vlong_nonempty [of "unat d"] by (simp add: cp1)
  from drop_at_entry [OF wf k] obtain rest where
    dr: "drop (lbegin l + offset hc es k) (data (stream l)) =
       write_vlong (unat d) @ (if hc then write_vlong ch else []) @ rest"
    by (auto simp: enc_def d_def ch_def)
  from drop_append_eq [OF dr]
  have dr1: "drop (lbegin l + cp) (data (stream l)) = (if hc then write_vlong ch else []) @ rest"
    by (simp add: cp1 add.assoc)
  from chs k have "ch < UNDEFINED" by (simp add: list_all_length ch_def)
  then have ch64: "ch mod 2 ^ 64 = ch" "ch \<noteq> UNDEFINED" by (simp_all add: UNDEFINED_def)
  show ?thesis
  proof (cases hc)
    case True
    let ?s1 = "(stream l)\<lparr>ptr := lbegin l + cp\<rparr>"
    have "drop (ptr ?s1) (data ?s1) = write_vlong ch @ rest" using dr1 True by simp
    from read_vlong_write_vlong [OF this] ch64
    have rv: "read_vlong ?s1 = Inr (ch, ?s1\<lparr>ptr := lbegin l + cp + length (write_vlong ch)\<rparr>)" by simp
    define l1 where "l1 = l\<lparr>stream := (stream l)\<lparr>ptr := lbegin l + cp + length (write_vlong ch)\<rparr>,
        skipped := c, child := ch\<rparr>"
    have r: "seek_skip l cp c = Inr l1"
      using True hc rv abs pos fresh by (simp add: seek_skip_def Let_def l1_def)
    have off: "lbegin l + cp + length (write_vlong ch) = lbegin l + offset hc es (Suc k)"
      using True by (simp add: offset_Suc [OF k] enc_def cp1 d_def ch_def)
    have w1: "wf_level hc es l1" using wf ch64 True by (simp add: wf_level_def l1_def)
    have a1: "at_entry hc es l1 k0" using k off c by (simp add: at_entry_def l1_def k0k)
    have st: "step l1 = step l" "doc l1 = doc l" "child l1 = snd (es ! (k0 - 1))"
      by (simp_all add: l1_def ch_def k_def)
    show ?thesis using r w1 a1 True st by (intro exI [of _ l1]) simp
  next
    case False
    define l1 where "l1 = l\<lparr>stream := (stream l)\<lparr>ptr := lbegin l + cp\<rparr>, skipped := c\<rparr>"
    have r: "seek_skip l cp c = Inr l1"
      using False hc abs pos fresh by (simp add: seek_skip_def Let_def l1_def)
    have off: "lbegin l + cp = lbegin l + offset hc es (Suc k)"
      using False by (simp add: offset_Suc [OF k] enc_def cp1 d_def)
    have w1: "wf_level hc es l1" using wf by (simp add: wf_level_def l1_def)
    have a1: "at_entry hc es l1 k0" using k off c by (simp add: at_entry_def l1_def k0k)
    have st: "step l1 = step l" "doc l1 = doc l" "child l1 = child l" by (simp_all add: l1_def)
    show ?thesis using r w1 a1 False st by (intro exI [of _ l1]) simp
  qed
qed

lemma seek_level_entry:
  assumes wf: "wf_level hc es l"
    and fresh: "ptr (stream l) = lbegin l" "skipped l = 0" "doc l = doc_invalid" "hc \<longrightarrow> child l = 0"
    and target: "target \<noteq> 0"
    and carried: "(k0 = 0 \<and> cp = 0 \<and> c = 0) \<or>
       (0 < k0 \<and> k0 \<le> length es
        \<and> cp = offset hc es (k0 - 1) + length (write_vlong (unat (fst (es ! (k0 - 1)))))
        \<and> c = k0 * step l)"
  shows "\<exists>k1 l1 cv. seek_level read_doc n target l cp c = Some (Inr (l1, cv, k1 * step l))
     \<and> k0 \<le> k1 \<and> k1 \<le> length es
     \<and> (\<forall>i. k0 \<le> i \<and> i < k1 \<longrightarrow> fst (es ! i) < target)
     \<and> (k1 < length es \<longrightarrow> \<not> fst (es ! k1) < target)
     \<and> skipped l1 = Suc k1 * step l
     \<and> cv = (if hc then (if k1 = 0 then 0 else snd (es ! (k1 - 1))) else UNDEFINED)"
proof -
  from target fresh(3) have lt: "doc l < target" by (simp add: doc_invalid_def word_greater_zero_iff)
  from wf have hc: "(child l \<noteq> UNDEFINED) = hc" and small: "Suc (length es) * step l < 2 ^ 64"
    by (simp_all add: wf_level_def)
  have "\<exists>la. seek_skip l cp c = Inr la \<and> wf_level hc es la \<and> at_entry hc es la k0
     \<and> step la = step l \<and> child la = (if hc then (if k0 = 0 then 0 else snd (es ! (k0 - 1))) else UNDEFINED)"
  proof (cases "k0 = 0")
    case True
    with carried have "cp = 0" by simp
    with seek_skip_stay [OF wf fresh(1) fresh(2), of c] wf True fresh(4) hc show ?thesis by auto
  next
    case False
    with carried have k0: "0 < k0" "k0 \<le> length es"
      and cp: "cp = offset hc es (k0 - 1) + length (write_vlong (unat (fst (es ! (k0 - 1)))))"
      and c: "c = k0 * step l" by simp_all
    from seek_skip_entry [OF wf fresh(1) k0 cp c] False hc show ?thesis by auto
  qed
  then obtain la where ss: "seek_skip l cp c = Inr la" and wfa: "wf_level hc es la"
    and ata: "at_entry hc es la k0" and sta: "step la = step l"
    and cha: "child la = (if hc then (if k0 = 0 then 0 else snd (es ! (k0 - 1))) else UNDEFINED)"
    by blast
  from scan_level [OF wfa ata, of n target] obtain k1 l1 cv where
    run: "(case read_skip read_doc n la of
        Inl e \<Rightarrow> Some (Inl e)
      | Inr lb \<Rightarrow> read_until read_doc n target lb (child la)) = Some (Inr (l1, cv))"
    and b: "k0 \<le> k1" "k1 \<le> length es"
    and lo: "\<forall>i. k0 \<le> i \<and> i < k1 \<longrightarrow> fst (es ! i) < target"
    and hi: "k1 < length es \<longrightarrow> \<not> fst (es ! k1) < target"
    and sk1: "skipped l1 = Suc k1 * step la"
    and cv: "cv = (if k1 = k0 \<or> \<not> hc then child la else snd (es ! (k1 - 1)))"
    by blast
  from run obtain lb where rs: "read_skip read_doc n la = Inr lb"
    and ru: "read_until read_doc n target lb (child la) = Some (Inr (l1, cv))"
    by (cases "read_skip read_doc n la") auto
  have "read_until read_doc n target lb (child la) = Some (Inr (l1, cv)) \<longrightarrow> step l1 = step lb"
    using read_until_rel [of "\<lambda>a b. step b = step a" read_doc n target lb "child la" l1 cv]
      read_skip_shape by auto
  with ru have "step l1 = step lb" by simp
  moreover from read_skip_shape [OF rs] have "step lb = step la" by simp
  ultimately have st1: "step l1 = step l" using sta by simp
  from b(2) have "Suc k1 * step l \<le> Suc (length es) * step l" by (intro mult_le_mono1) simp
  with small have "Suc k1 * step l < 2 ^ 64" by linarith
  then have "sub64 (Suc k1 * step l) (step l) = Suc k1 * step l - step l"
    by (intro sub64_minus) simp_all
  then have sub: "sub64 (skipped l1) (step l1) = k1 * step l" using sk1 sta st1 by simp
  have sl: "seek_level read_doc n target l cp c = Some (Inr (l1, cv, k1 * step l))"
    using lt ss rs ru sub by (simp add: seek_level_def)
  have cv1: "cv = (if hc then (if k1 = 0 then 0 else snd (es ! (k1 - 1))) else UNDEFINED)"
    using cv cha b(1) by auto
  from sk1 sta have sk2: "skipped l1 = Suc k1 * step l" by simp
  show ?thesis
    apply (rule exI [of _ k1], rule exI [of _ l1], rule exI [of _ cv])
    using sl b lo hi sk2 cv1 by blast
qed


section \<open>What the writer writes\<close>

lemma level_step_pos: "0 < s0 \<Longrightarrow> 0 < sn \<Longrightarrow> 0 < level_step s0 sn j"
  by (simp add: level_step_def)

lemma level_step_Suc: "level_step s0 sn (Suc j) = sn * level_step s0 sn j"
  by (simp add: level_step_def)

lemma length_entries: "length (entries s0 sn ids j) = length ids div level_step s0 sn j"
  by (cases j) (simp_all add: entries.simps level_step_def)

lemma entries_fst:
  "k < length ids div level_step s0 sn j \<Longrightarrow>
   fst (entries s0 sn ids j ! k) = ids ! (Suc k * level_step s0 sn j - 1)"
  by (cases j) (simp_all add: entries.simps level_step_def)

lemma entries_snd:
  "k < length ids div level_step s0 sn (Suc j) \<Longrightarrow>
   snd (entries s0 sn ids (Suc j) ! k) =
     offset (0 < j) (entries s0 sn ids j) (Suc k * sn - 1)
       + length (write_vlong (unat (ids ! (Suc k * level_step s0 sn (Suc j) - 1))))"
  by (simp add: entries.simps)

lemma length_level_buffer:
  "length (level_buffer s0 sn ids j n) = offset (0 < j) (entries s0 sn ids j) (n div level_step s0 sn j)"
  by (simp add: level_buffer_def offset_def)

lemma level_buffer_same:
  "Suc n mod level_step s0 sn j \<noteq> 0 \<Longrightarrow> level_buffer s0 sn ids j (Suc n) = level_buffer s0 sn ids j n"
  by (simp add: level_buffer_def div_Suc)

lemma level_buffer_new:
  assumes pos: "0 < level_step s0 sn j" and n: "n < length ids" and c: "Suc n = c * level_step s0 sn j"
  shows "n div level_step s0 sn j = c - 1" and "c - 1 < length (entries s0 sn ids j)"
    and "0 < c"
    and "level_buffer s0 sn ids j (Suc n) =
         level_buffer s0 sn ids j n @ enc (0 < j) (entries s0 sn ids j ! (c - 1))"
proof -
  define m where "m = level_step s0 sn j"
  from c show c0: "0 < c" by (cases c) simp_all
  have d1: "Suc n div m = c" using c pos by (simp add: m_def)
  have "Suc n mod m = 0" using c by (simp add: m_def)
  then have "Suc n div m = Suc (n div m)" by (simp add: div_Suc)
  with d1 show d: "n div level_step s0 sn j = c - 1" by (simp add: m_def)
  from n have "Suc n \<le> length ids" by simp
  then have "Suc n div m \<le> length ids div m" by (rule div_le_mono)
  with d1 c0 show lt: "c - 1 < length (entries s0 sn ids j)"
    by (simp add: length_entries m_def)
  from d1 c0 have "Suc n div m = Suc (c - 1)" by simp
  then show "level_buffer s0 sn ids j (Suc n) =
         level_buffer s0 sn ids j n @ enc (0 < j) (entries s0 sn ids j ! (c - 1))"
    using d lt by (simp add: level_buffer_def m_def take_Suc_conv_app_nth)
qed

lemma level_step_dvd: "j \<le> i \<Longrightarrow> level_step s0 sn i = level_step s0 sn j * sn ^ (i - j)"
  by (simp add: level_step_def power_add [symmetric])

lemma level_buffer_above_same:
  assumes pos: "0 < level_step s0 sn j" and c: "Suc n = c * level_step s0 sn j"
    and nd: "c mod sn \<noteq> 0" and i: "j < i"
  shows "level_buffer s0 sn ids i (Suc n) = level_buffer s0 sn ids i n"
proof (rule level_buffer_same, rule notI)
  assume "Suc n mod level_step s0 sn i = 0"
  then have "level_step s0 sn i dvd Suc n" by (simp add: dvd_eq_mod_eq_0)
  moreover from i have "level_step s0 sn i = level_step s0 sn j * sn ^ (i - j)"
    by (intro level_step_dvd) simp
  ultimately have "level_step s0 sn j * sn ^ (i - j) dvd c * level_step s0 sn j" using c by simp
  then have "sn ^ (i - j) dvd c" using pos by (simp add: mult.commute)
  moreover from i have "sn dvd sn ^ (i - j)" by (intro dvd_power) simp
  ultimately have "sn dvd c" by (rule dvd_trans [rotated])
  with nd show False by (simp add: dvd_eq_mod_eq_0)
qed

lemma skip_levels_buffers:
  assumes s0: "0 < s0" and sn: "0 < sn" and n: "n < length ids"
    and c: "Suc n = c * level_step s0 sn j"
    and ch: "ch = offset (0 < j) (entries s0 sn ids j) (c - 1) + length (write_vlong (unat (ids ! n)))"
  shows "skip_levels (write_doc (ids ! n)) sn c j ch
           (map (\<lambda>i. level_buffer s0 sn ids i n) [Suc j..<Suc j + m])
         = map (\<lambda>i. level_buffer s0 sn ids i (Suc n)) [Suc j..<Suc j + m]"
  using c ch
proof (induction m arbitrary: j c ch)
  case 0
  show ?case by simp
next
  case (Suc m)
  note pos = level_step_pos [OF s0 sn]
  have up: "[Suc j..<Suc j + Suc m] = Suc j # [Suc (Suc j)..<Suc (Suc j) + m]"
    by (simp add: upt_conv_Cons)
  show ?case
  proof (cases "c mod sn = 0")
    case True
    define c1 where "c1 = c div sn"
    from True have cc: "c = c1 * sn" unfolding c1_def by (metis dvd_div_mult_self dvd_eq_mod_eq_0)
    with Suc.prems(1) have c1: "Suc n = c1 * level_step s0 sn (Suc j)"
      by (simp add: level_step_Suc)
    note nb = level_buffer_new [OF pos n c1]
    from nb(3) have sc: "Suc (c1 - 1) = c1" by simp
    have ix: "Suc (c1 - 1) * level_step s0 sn (Suc j) - 1 = n"
      unfolding sc c1 [symmetric] by simp
    have "fst (entries s0 sn ids (Suc j) ! (c1 - 1)) =
        ids ! (Suc (c1 - 1) * level_step s0 sn (Suc j) - 1)"
      using nb(2) by (intro entries_fst) (simp add: length_entries)
    then have f: "fst (entries s0 sn ids (Suc j) ! (c1 - 1)) = ids ! n"
      unfolding ix .
    have "snd (entries s0 sn ids (Suc j) ! (c1 - 1)) =
        offset (0 < j) (entries s0 sn ids j) (Suc (c1 - 1) * sn - 1)
       + length (write_vlong (unat (ids ! (Suc (c1 - 1) * level_step s0 sn (Suc j) - 1))))"
      using nb(2) by (intro entries_snd) (simp add: length_entries)
    then have s: "snd (entries s0 sn ids (Suc j) ! (c1 - 1)) = ch"
      unfolding ix unfolding sc cc [symmetric] Suc.prems(2) .
    have e: "enc True (entries s0 sn ids (Suc j) ! (c1 - 1)) =
        write_vlong (unat (ids ! n)) @ write_vlong ch"
      unfolding enc_def f s by simp
    have nc: "length (level_buffer s0 sn ids (Suc j) n @ write_doc (ids ! n) (j + 1)) =
        offset (0 < Suc j) (entries s0 sn ids (Suc j)) (c1 - 1) + length (write_vlong (unat (ids ! n)))"
      by (simp add: length_level_buffer nb(1) write_doc_def)
    note ih = Suc.IH [OF c1 nc]
    have hd: "level_buffer s0 sn ids (Suc j) (Suc n) =
        level_buffer s0 sn ids (Suc j) n @ write_doc (ids ! n) (j + 1) @ write_vlong ch"
      using nb(4) e by (simp add: write_doc_def)
    show ?thesis
      unfolding up using True ih hd
      by (simp add: Let_def c1_def)
  next
    case False
    have "map (\<lambda>i. level_buffer s0 sn ids i (Suc n)) [Suc j..<Suc j + Suc m] =
        map (\<lambda>i. level_buffer s0 sn ids i n) [Suc j..<Suc j + Suc m]"
    proof (rule map_cong [OF refl])
      fix i
      assume "i \<in> set [Suc j..<Suc j + Suc m]"
      then have "j < i" unfolding set_upt atLeastLessThan_iff by simp
      then show "level_buffer s0 sn ids i (Suc n) = level_buffer s0 sn ids i n"
        by (rule level_buffer_above_same [OF pos Suc.prems(1) False])
    qed
    moreover have "skip_levels (write_doc (ids ! n)) sn c j ch
           (map (\<lambda>i. level_buffer s0 sn ids i n) [Suc j..<Suc j + Suc m])
        = map (\<lambda>i. level_buffer s0 sn ids i n) [Suc j..<Suc j + Suc m]"
      unfolding up using False by simp
    ultimately show ?thesis by simp
  qed
qed

lemma skip_buffers:
  assumes s0: "0 < s0" and sn: "0 < sn" and n: "n < length ids" and L: "0 < L"
    and w: "w_skip_0 w = s0" "w_skip_n w = sn" "w_write w = write_doc"
      "w_levels w = map (\<lambda>i. level_buffer s0 sn ids i n) [0..<L]"
  shows "skip w (ids ! n) (Suc n) =
     Inr (w\<lparr>w_levels := map (\<lambda>i. level_buffer s0 sn ids i (Suc n)) [0..<L]\<rparr>)"
proof -
  from L obtain m where m: "L = Suc 0 + m" by (cases L) simp_all
  have up: "[0..<L] = 0 # [Suc 0..<Suc 0 + m]" unfolding m by (simp add: upt_conv_Cons)
  have st0: "level_step s0 sn 0 = s0" by (simp add: level_step_def)
  show ?thesis
  proof (cases "Suc n mod s0 = 0")
    case False
    have "\<forall>i\<in>set [0..<L]. level_buffer s0 sn ids i (Suc n) = level_buffer s0 sn ids i n"
    proof
      fix i
      have "level_step s0 sn i = s0 * sn ^ i" by (simp add: level_step_def)
      then have "s0 dvd level_step s0 sn i" by simp
      with False have "Suc n mod level_step s0 sn i \<noteq> 0"
        by (metis dvd_eq_mod_eq_0 dvd_trans)
      then show "level_buffer s0 sn ids i (Suc n) = level_buffer s0 sn ids i n"
        by (rule level_buffer_same)
    qed
    then have "map (\<lambda>i. level_buffer s0 sn ids i (Suc n)) [0..<L] =
        map (\<lambda>i. level_buffer s0 sn ids i n) [0..<L]"
      by (intro map_cong) simp_all
    then have "w\<lparr>w_levels := map (\<lambda>i. level_buffer s0 sn ids i (Suc n)) [0..<L]\<rparr> = w"
      using w(4) by simp
    moreover have "skip w (ids ! n) (Suc n) = Inr w"
      using False s0 w by (simp add: skip_def up)
    ultimately show ?thesis by simp
  next
    case True
    define c where "c = Suc n div s0"
    from True have c: "Suc n = c * level_step s0 sn 0" unfolding c_def st0 by (metis dvd_div_mult_self dvd_eq_mod_eq_0)
    have pos: "0 < level_step s0 sn 0" using s0 by (simp add: st0)
    note nb = level_buffer_new [OF pos n c]
    from nb(3) have sc: "Suc (c - 1) = c" by simp
    have ix: "Suc (c - 1) * level_step s0 sn 0 - 1 = n"
      unfolding sc c [symmetric] by simp
    have "fst (entries s0 sn ids 0 ! (c - 1)) = ids ! (Suc (c - 1) * level_step s0 sn 0 - 1)"
      using nb(2) by (intro entries_fst) (simp only: length_entries)
    then have f: "fst (entries s0 sn ids 0 ! (c - 1)) = ids ! n"
      unfolding ix .
    have hd: "level_buffer s0 sn ids 0 (Suc n) = level_buffer s0 sn ids 0 n @ write_doc (ids ! n) 0"
      using nb(4) f by (simp add: enc_def write_doc_def)
    have ch: "length (level_buffer s0 sn ids 0 n @ write_doc (ids ! n) 0) =
        offset (0 < (0::nat)) (entries s0 sn ids 0) (c - 1) + length (write_vlong (unat (ids ! n)))"
      using nb(1) by (simp add: length_level_buffer write_doc_def)
    note sl = skip_levels_buffers [OF s0 sn n c ch, of m]
    show ?thesis
      using True s0 sn w sl hd
      by (simp add: skip_def up Let_def c_def)
  qed
qed

lemma write_entries_buffers:
  assumes s0: "0 < s0" and sn: "0 < sn" and L: "0 < L"
  shows "n \<le> length ids \<Longrightarrow> w_skip_0 w = s0 \<Longrightarrow> w_skip_n w = sn \<Longrightarrow> w_write w = write_doc \<Longrightarrow>
     w_levels w = map (\<lambda>i. level_buffer s0 sn ids i n) [0..<L] \<Longrightarrow>
     write_entries w (drop n ids) n =
       Inr (w\<lparr>w_levels := map (\<lambda>i. level_buffer s0 sn ids i (length ids)) [0..<L]\<rparr>)"
proof (induction "length ids - n" arbitrary: n w)
  case 0
  then have "n = length ids" by simp
  with 0 show ?case by simp
next
  case (Suc d)
  from Suc.hyps(2) have n: "n < length ids" by simp
  then have dr: "drop n ids = ids ! n # drop (Suc n) ids" by (simp add: Cons_nth_drop_Suc)
  let ?w1 = "w\<lparr>w_levels := map (\<lambda>i. level_buffer s0 sn ids i (Suc n)) [0..<L]\<rparr>"
  have sk: "skip w (ids ! n) (Suc n) = Inr ?w1"
    by (rule skip_buffers [OF s0 sn n L Suc.prems(2) Suc.prems(3) Suc.prems(4) Suc.prems(5)])
  from Suc.hyps(2) have d: "d = length ids - Suc n" by simp
  from n have le: "Suc n \<le> length ids" by simp
  have "write_entries ?w1 (drop (Suc n) ids) (Suc n) =
      Inr (?w1\<lparr>w_levels := map (\<lambda>i. level_buffer s0 sn ids i (length ids)) [0..<L]\<rparr>)"
    using Suc.prems by (intro Suc.hyps(1) [OF d le]) simp_all
  with sk show ?case unfolding dr by simp
qed

lemma math_log_le: "0 < x \<Longrightarrow> sn ^ math_log x sn \<le> x"
proof (induction x sn rule: math_log.induct)
  case (1 x base)
  show ?case
  proof (cases "base < 2 \<or> x < base")
    case True
    then have "math_log x base = 0" by (simp add: math_log.simps)
    with 1 show ?thesis by simp
  next
    case False
    then have b: "2 \<le> base" "base \<le> x" by simp_all
    then have "0 < x div base" by (simp add: div_greater_zero_iff)
    with 1 False have ih: "base ^ math_log (x div base) base \<le> x div base" by simp
    from False have "math_log x base = 1 + math_log (x div base) base"
      by (subst math_log.simps) simp
    then have "base ^ math_log x base = base * base ^ math_log (x div base) base" by simp
    also have "\<dots> \<le> base * (x div base)" using ih by simp
    also have "\<dots> \<le> x" by simp
    finally show ?thesis .
  qed
qed

lemma level_buffer_0: "level_buffer s0 sn ids i 0 = []"
  by (simp add: level_buffer_def)

lemma level_buffer_full:
  "level_buffer s0 sn ids i (length ids) = concat (map (enc (0 < i)) (entries s0 sn ids i))"
  by (simp add: level_buffer_def length_entries)

lemma level_buffer_nonempty:
  assumes "0 < level_step s0 sn i" and "level_step s0 sn i \<le> length ids"
  shows "level_buffer s0 sn ids i (length ids) \<noteq> []"
proof -
  from assms have "0 < length ids div level_step s0 sn i" by (simp add: div_greater_zero_iff)
  then have "entries s0 sn ids i \<noteq> []" using length_entries [of s0 sn ids i] by auto
  then obtain e es where "entries s0 sn ids i = e # es" by (cases "entries s0 sn ids i") auto
  then show ?thesis using enc_nonempty [of "0 < i" e] by (simp add: level_buffer_full)
qed

lemma level_count_pos: "0 < level_count s0 sn requested n"
  by (simp add: level_count_def)

lemma level_count_step:
  assumes s0: "0 < s0" and sn: "0 < sn" and n: "s0 < n" and i: "i < level_count s0 sn requested n"
  shows "level_step s0 sn i \<le> n"
proof -
  from s0 n have x: "0 < n div s0" by (simp add: div_greater_zero_iff)
  from i have "i \<le> math_log (n div s0) sn" by (simp add: level_count_def)
  with sn have "sn ^ i \<le> sn ^ math_log (n div s0) sn" by (intro power_increasing) simp_all
  also have "\<dots> \<le> n div s0" by (rule math_log_le [OF x])
  finally have "s0 * sn ^ i \<le> s0 * (n div s0)" by simp
  also have "\<dots> \<le> n" by simp
  finally show ?thesis by (simp add: level_step_def)
qed

lemma write_skip_list_bytes:
  assumes s0: "0 < s0" and sn: "0 < sn" and n: "s0 < length ids"
    and L_def: "L = level_count s0 sn requested (length ids)"
  shows "write_skip_list s0 sn requested ids =
     Inr (write_vint L @ concat (map (\<lambda>l. write_vlong (length l) @ l)
            (rev (map (\<lambda>i. level_buffer s0 sn ids i (length ids)) [0..<L]))))"
proof -
  have L: "0 < L" by (simp add: L_def level_count_pos)
  define w where "w = (skip_writer_new s0 sn :: doc_id_t skip_writer)\<lparr>w_levels := replicate L [], w_write := write_doc\<rparr>"
  have wp: "writer_prepare (skip_writer_new s0 sn) requested (length ids) write_doc = Inr w"
    using s0 n by (simp add: writer_prepare_def max_levels_def skip_writer_new_def resize_def
        w_def L_def level_count_def Let_def)
  have lv: "w_levels w = map (\<lambda>i. level_buffer s0 sn ids i 0) [0..<L]"
    by (simp add: w_def level_buffer_0 map_replicate_trivial)
  have f: "w_skip_0 w = s0" "w_skip_n w = sn" "w_write w = write_doc"
    by (simp_all add: w_def skip_writer_new_def)
  define bufs where "bufs = map (\<lambda>i. level_buffer s0 sn ids i (length ids)) [0..<L]"
  from write_entries_buffers [OF s0 sn L _ f lv]
  have we: "write_entries w ids 0 = Inr (w\<lparr>w_levels := bufs\<rparr>)" by (simp add: bufs_def)
  have ne: "\<forall>l\<in>set bufs. l \<noteq> []"
  proof
    fix l assume "l \<in> set bufs"
    then obtain i where i: "i < L" and l: "l = level_buffer s0 sn ids i (length ids)"
      by (auto simp: bufs_def)
    from level_count_step [OF s0 sn n] i have "level_step s0 sn i \<le> length ids"
      by (simp add: L_def)
    with level_buffer_nonempty [OF level_step_pos [OF s0 sn]] l show "l \<noteq> []" by simp
  qed
  have len: "length bufs = L" by (simp add: bufs_def)
  with L have "rev bufs \<noteq> []" by auto
  then obtain b bs where rb: "rev bufs = b # bs" by (cases "rev bufs") auto
  then have "b \<in> set bufs" by (metis list.set_intros(1) set_rev)
  with ne have "b \<noteq> []" by simp
  with rb have dw: "dropWhile (\<lambda>l. length l = 0) (rev bufs) = rev bufs" by simp
  have nin: "[] \<notin> set (rev bufs)" using ne by auto
  have fl: "flush (w\<lparr>w_levels := bufs\<rparr>) [] =
      Inr (write_vint L @ concat (map (\<lambda>l. write_vlong (length l) @ l) (rev bufs)))"
    using dw nin len by (simp add: flush_def Let_def)
  show ?thesis
    using wp we fl by (simp add: write_skip_list_def bufs_def)
qed


section \<open>What the reader loads\<close>

lemma length_layout: "length (layout d p sn stp ls) = length ls"
  by (induction ls arbitrary: p stp) (simp_all add: Let_def)

lemma layout_nth:
  "i < length ls \<Longrightarrow>
   drop p d = concat (map (\<lambda>l. write_vlong (length l) @ l) ls) @ rest \<Longrightarrow>
   \<exists>b r. layout d p sn stp ls ! i =
       level_new \<lparr>data = d, ptr = b\<rparr> (stp div sn ^ i) b (b + length (ls ! i))
     \<and> drop b d = ls ! i @ r"
proof (induction ls arbitrary: p stp i)
  case Nil
  then show ?case by simp
next
  case (Cons l ls)
  define b where "b = p + length (write_vlong (length l))"
  from Cons.prems(2) have d0: "drop p d =
      write_vlong (length l) @ (l @ concat (map (\<lambda>l. write_vlong (length l) @ l) ls) @ rest)"
    by simp
  from drop_append_eq [OF d0]
  have d1: "drop b d = l @ (concat (map (\<lambda>l. write_vlong (length l) @ l) ls) @ rest)"
    by (simp add: b_def)
  show ?case
  proof (cases i)
    case 0
    with d1 show ?thesis by (auto simp: Let_def b_def)
  next
    case (Suc i')
    with Cons.prems(1) have i': "i' < length ls" by simp
    from drop_append_eq [OF d1]
    have d2: "drop (b + length l) d = concat (map (\<lambda>l. write_vlong (length l) @ l) ls) @ rest" .
    from Cons.IH [OF i' d2, of "stp div sn"] obtain b1 r where
      "layout d (b + length l) sn (stp div sn) ls ! i' =
         level_new \<lparr>data = d, ptr = b1\<rparr> (stp div sn div sn ^ i') b1 (b1 + length (ls ! i'))"
      and "drop b1 d = ls ! i' @ r" by blast
    moreover have "stp div sn div sn ^ i' = stp div sn ^ Suc i'"
      by (simp add: div_mult2_eq)
    ultimately show ?thesis using Suc by (auto simp: Let_def b_def)
  qed
qed

lemma round_double_small: "x < 2 ^ 53 \<Longrightarrow> round_double x = x"
  by (simp add: round_double_def)

lemma pow_size_t_exact:
  assumes "b ^ e < 2 ^ 53"
  shows "pow_size_t b e = b ^ e"
proof -
  have "round_double b ^ e = b ^ e"
  proof (cases "e = 0")
    case True
    then show ?thesis by simp
  next
    case False
    have "b \<le> b ^ e"
    proof (cases "b = 0")
      case True
      then show ?thesis by simp
    next
      case b: False
      with False show ?thesis by (intro self_le_power) simp_all
    qed
    with assms have "b < 2 ^ 53" by simp
    then show ?thesis by (simp add: round_double_small)
  qed
  moreover from assms have "b ^ e < (2 :: nat) ^ 64" by simp
  ultimately show ?thesis using assms by (simp add: pow_size_t_def round_double_small Let_def)
qed

lemma math_log_bound:
  assumes "x < 2 ^ 53"
  shows "math_log x sn < 53"
proof (cases "sn < 2 \<or> x < sn")
  case True
  then show ?thesis by (simp add: math_log.simps)
next
  case False
  then have x: "0 < x" and sn: "2 \<le> sn" by simp_all
  from sn have "(2 :: nat) ^ math_log x sn \<le> sn ^ math_log x sn" by (intro power_mono) simp_all
  also have "\<dots> \<le> x" by (rule math_log_le [OF x])
  finally have "(2 :: nat) ^ math_log x sn < 2 ^ 53" using assms by simp
  then show ?thesis by (simp only: power_strict_increasing_iff) 
qed

lemma entries_child_0: "e \<in> set (entries s0 sn ids 0) \<Longrightarrow> snd e = 0"
  by (auto simp: entries.simps)

lemma entries_child_bound:
  assumes s0: "0 < s0" and sn: "0 < sn" and k: "k < length (entries s0 sn ids (Suc j))"
  shows "snd (entries s0 sn ids (Suc j) ! k) \<le> length (level_buffer s0 sn ids j (length ids))"
proof -
  define m where "m = Suc k * sn - 1"
  define es where "es = entries s0 sn ids j"
  note pos = level_step_pos [OF s0 sn]
  from sn have sm: "Suc m = Suc k * sn" by (simp add: m_def)
  from k have k1: "k < length ids div level_step s0 sn (Suc j)" by (simp only: length_entries)
  then have "Suc k \<le> length ids div level_step s0 sn (Suc j)" by simp
  then have "Suc k * level_step s0 sn (Suc j) \<le> length ids"
    using pos [of "Suc j"] by (simp add: less_eq_div_iff_mult_less_eq)
  moreover have eq: "Suc m * level_step s0 sn j = Suc k * level_step s0 sn (Suc j)"
    by (simp only: sm level_step_Suc mult.assoc)
  ultimately have "Suc m * level_step s0 sn j \<le> length ids" by simp
  then have "Suc m \<le> length ids div level_step s0 sn j"
    using pos [of j] by (simp add: less_eq_div_iff_mult_less_eq)
  then have m: "m < length es" by (simp add: es_def length_entries)
  have ix: "Suc m * level_step s0 sn j - 1 = Suc k * level_step s0 sn (Suc j) - 1"
    by (simp only: eq)
  have "fst (es ! m) = ids ! (Suc m * level_step s0 sn j - 1)"
    unfolding es_def using m by (intro entries_fst) (simp add: es_def length_entries)
  then have f: "fst (es ! m) = ids ! (Suc k * level_step s0 sn (Suc j) - 1)" unfolding ix .
  have "snd (entries s0 sn ids (Suc j) ! k) =
      offset (0 < j) es m
        + length (write_vlong (unat (ids ! (Suc k * level_step s0 sn (Suc j) - 1))))"
    unfolding es_def m_def by (rule entries_snd [OF k1])
  also have "\<dots> = offset (0 < j) es m + length (write_vlong (unat (fst (es ! m))))"
    by (simp only: f)
  also have "\<dots> \<le> offset (0 < j) es m + length (enc (0 < j) (es ! m))"
    by (simp add: enc_def)
  also have "\<dots> = offset (0 < j) es (Suc m)" by (simp add: offset_Suc [OF m])
  also have "\<dots> \<le> offset (0 < j) es (length es)" using m by (intro offset_le_end) simp
  also have "\<dots> = length (level_buffer s0 sn ids j (length ids))"
    by (simp add: level_buffer_full offset_def es_def)
  finally show ?thesis .
qed

lemma fresh_level_intro:
  assumes d: "drop b d = level_buffer s0 sn ids j (length ids) @ rest"
    and e: "e = b + length (level_buffer s0 sn ids j (length ids))"
    and sz: "e < 2 ^ 64"
    and st: "Suc (length ids div level_step s0 sn j) * level_step s0 sn j < 2 ^ 64"
    and ch: "list_all (\<lambda>e. snd e < UNDEFINED) (entries s0 sn ids j)"
    and c: "c = (if 0 < j then 0 else UNDEFINED)"
  shows "fresh_level s0 sn ids j
     ((level_new \<lparr>data = d, ptr = b\<rparr> (level_step s0 sn j) b e)\<lparr>child := c\<rparr>)"
proof -
  have "(c \<noteq> UNDEFINED) = (0 < j)" using c by (simp add: UNDEFINED_def)
  moreover have "\<exists>rest. drop b d = concat (map (enc (0 < j)) (entries s0 sn ids j)) @ rest"
    using d by (auto simp: level_buffer_full)
  moreover have "e = b + offset (0 < j) (entries s0 sn ids j) (length (entries s0 sn ids j))"
    using e by (simp add: level_buffer_full offset_def)
  moreover have "Suc (length (entries s0 sn ids j)) * level_step s0 sn j < 2 ^ 64"
    using st by (simp only: length_entries)
  ultimately show ?thesis
    using sz ch c
    by (simp add: fresh_level_def wf_level_def level_new_def)
qed

lemma level_step_div:
  assumes "0 < sn" and "i \<le> m"
  shows "level_step s0 sn m div sn ^ i = level_step s0 sn (m - i)"
proof -
  from assms(2) have "level_step s0 sn m = level_step s0 sn (m - i) * sn ^ (m - (m - i))"
    by (intro level_step_dvd) simp
  also from assms(2) have "m - (m - i) = i" by simp
  finally show ?thesis using assms(1) by simp
qed

lemma level_count_bound:
  assumes "n < 2 ^ 53"
  shows "level_count s0 sn requested n < 54"
proof -
  have "n div s0 \<le> n" by simp
  from this assms have "n div s0 < 2 ^ 53" by (rule le_less_trans)
  from math_log_bound [OF this, of sn] show ?thesis by (simp add: level_count_def)
qed

lemma level_span_bound:
  assumes "0 < m" and "m \<le> n" and "n < 2 ^ 53"
  shows "Suc (n div m) * m < (2 :: nat) ^ 64"
proof -
  have a: "n div m * m \<le> n" by simp
  have "Suc (n div m) * m = n div m * m + m" by simp
  with a assms(2) have "Suc (n div m) * m \<le> n + n" by linarith
  also have "\<dots> < 2 ^ 53 + 2 ^ 53" using assms(3) by simp
  also have "\<dots> < (2 :: nat) ^ 64" by simp
  finally show ?thesis .
qed

lemma load_written_levels:
  assumes s0: "0 < s0" and sn: "0 < sn" and n: "s0 < length ids" and small: "length ids < 2 ^ 53"
    and L: "L = level_count s0 sn requested (length ids)"
    and ls: "ls = rev (map (\<lambda>i. level_buffer s0 sn ids i (length ids)) [0..<L])"
    and bytes: "bytes = write_vint L @ concat (map (\<lambda>l. write_vlong (length l) @ l) ls)"
    and sz: "length bytes < 2 ^ 63"
  shows "\<exists>r. load_skip_list s0 sn bytes = Inr r \<and> r_skip_0 r = s0 \<and> r_read r = read_doc
     \<and> length (r_levels r) = L
     \<and> (\<forall>i<L. \<exists>b rest. r_levels r ! i =
           (level_new \<lparr>data = bytes, ptr = b\<rparr> (level_step s0 sn (L - 1 - i)) b (b + length (ls ! i)))
             \<lparr>child := (if Suc i = L then UNDEFINED else 0)\<rparr>
           \<and> drop b bytes = ls ! i @ rest)"
proof -
  let ?body = "\<lambda>ls. concat (map (\<lambda>l. write_vlong (length l) @ l) ls)"
  have Lpos: "0 < L" by (simp add: L level_count_pos)
  have len: "length ls = L" by (simp add: ls)
  have ne: "\<forall>l\<in>set ls. l \<noteq> []"
  proof
    fix l assume "l \<in> set ls"
    then obtain i where i: "i < L" and l: "l = level_buffer s0 sn ids i (length ids)"
      by (auto simp: ls)
    from level_count_step [OF s0 sn n] i have "level_step s0 sn i \<le> length ids"
      by (simp add: L)
    with level_buffer_nonempty [OF level_step_pos [OF s0 sn]] l show "l \<noteq> []" by simp
  qed
  from level_count_bound [OF small] have "L < 54" by (simp add: L)
  then have L32: "L mod 2 ^ 32 = L" by simp
  have sz64: "length bytes < 2 ^ 64" using sz by simp
  define h where "h = length (write_vint L)"
  define front where "front = butlast ls"
  define lst where "lst = last ls"
  from len Lpos have lsne: "ls \<noteq> []" by auto
  then have split: "ls = front @ [lst]" by (simp add: front_def lst_def)
  have lf: "length front = L - 1" by (simp add: front_def len)
  from ne split have nef: "\<forall>l\<in>set front. l \<noteq> []" and nel: "lst \<noteq> []" by auto
  have body: "?body ls = ?body front @ write_vlong (length lst) @ lst @ []"
    by (subst split) simp
  define inp where "inp = \<lparr>data = bytes, ptr = 0\<rparr>"
  define in1 where "in1 = \<lparr>data = bytes, ptr = h\<rparr>"
  have "drop (ptr inp) (data inp) = write_vint L @ ?body ls" by (simp add: inp_def bytes)
  from read_vint_write_vint [OF this] L32
  have rv: "read_vint inp = Inr (L, in1)" by (simp add: inp_def in1_def h_def)
  have top: "level_step s0 sn (L - 1) \<le> length ids"
    using level_count_step [OF s0 sn n, of "L - 1" requested] Lpos by (simp add: L)
  have "sn ^ (L - 1) \<le> s0 * sn ^ (L - 1)" using s0 by simp
  also have "\<dots> = level_step s0 sn (L - 1)" by (simp add: level_step_def)
  also note top
  also note small
  finally have "sn ^ (L - 1) < 2 ^ 53" .
  then have pw: "pow_size_t sn (L - 1) = sn ^ (L - 1)" by (rule pow_size_t_exact)
  from top small have "level_step s0 sn (L - 1) < 2 ^ 64" by simp
  then have stp: "u64 (s0 * pow_size_t sn (L - 1)) = level_step s0 sn (L - 1)"
    unfolding pw u64_def level_step_def by simp
  have d1: "drop (ptr in1) (data in1) = ?body front @ (write_vlong (length lst) @ lst @ [])"
    by (simp add: in1_def bytes h_def body)
  have szi: "length (data in1) < 2 ^ 64" using sz64 by (simp add: in1_def)
  define in2 where "in2 = \<lparr>data = bytes, ptr = h + length (?body front)\<rparr>"
  from load_levels_at [OF d1 nef szi, of sn "level_step s0 sn (L - 1)" "[]"] sn
  have ld: "load_levels sn (L - 1) (level_step s0 sn (L - 1)) in1 [] =
      Inr (layout bytes h sn (level_step s0 sn (L - 1)) front, in2)"
    by (simp add: lf in1_def in2_def)
  from drop_append_eq [OF d1]
  have d2: "drop (ptr in2) (data in2) = write_vlong (length lst) @ lst @ []"
    by (simp add: in1_def in2_def)
  have sz2: "length (data in2) < 2 ^ 64" using sz64 by (simp add: in2_def)
  define bl where "bl = ptr in2 + length (write_vlong (length lst))"
  from load_level_at [OF d2 nel sz2, of "layout bytes h sn (level_step s0 sn (L - 1)) front" s0]
  have ll: "load_level (layout bytes h sn (level_step s0 sn (L - 1)) front) in2 s0 =
      Inr (layout bytes h sn (level_step s0 sn (L - 1)) front
           @ [level_new \<lparr>data = bytes, ptr = bl\<rparr> s0 bl (bl + length lst)])"
    by (simp add: bl_def in2_def)
  define r where "r = (skip_reader_new s0 sn)\<lparr>r_levels :=
      layout bytes h sn (level_step s0 sn (L - 1)) front
        @ [(level_new \<lparr>data = bytes, ptr = bl\<rparr> s0 bl (bl + length lst))\<lparr>child := UNDEFINED\<rparr>],
      r_read := read_doc\<rparr>"
  have load: "load_skip_list s0 sn bytes = Inr r"
    using rv Lpos stp ld ll
    by (simp add: load_skip_list_def reader_prepare_def inp_def [symmetric] skip_reader_new_def r_def)
  have f: "r_skip_0 r = s0" "r_read r = read_doc" "length (r_levels r) = L"
    using Lpos by (simp_all add: r_def skip_reader_new_def length_layout lf)
  have lv: "\<forall>i<L. \<exists>b rest. r_levels r ! i =
           (level_new \<lparr>data = bytes, ptr = b\<rparr> (level_step s0 sn (L - 1 - i)) b (b + length (ls ! i)))
             \<lparr>child := (if Suc i = L then UNDEFINED else 0)\<rparr>
           \<and> drop b bytes = ls ! i @ rest"
  proof (intro allI impI)
    fix i assume i: "i < L"
    show "\<exists>b rest. r_levels r ! i =
           (level_new \<lparr>data = bytes, ptr = b\<rparr> (level_step s0 sn (L - 1 - i)) b (b + length (ls ! i)))
             \<lparr>child := (if Suc i = L then UNDEFINED else 0)\<rparr>
           \<and> drop b bytes = ls ! i @ rest"
    proof (cases "Suc i = L")
      case True
      then have il: "i = length (layout bytes h sn (level_step s0 sn (L - 1)) front)"
        by (simp add: length_layout lf)
      have a: "r_levels r ! i =
          (level_new \<lparr>data = bytes, ptr = bl\<rparr> s0 bl (bl + length lst))\<lparr>child := UNDEFINED\<rparr>"
        unfolding il by (simp add: r_def)
      from True lf have "i = length front" by simp
      then have li: "ls ! i = lst" by (subst split) simp
      from drop_append_eq [OF d2] have "drop bl bytes = lst @ []"
        by (simp add: bl_def in2_def)
      moreover from True have "level_step s0 sn (L - 1 - i) = s0" by (auto simp: level_step_def)
      ultimately show ?thesis using a li True by auto
    next
      case False
      with i have i1: "i < length front" by (simp add: lf)
      from d1 have d1': "drop h bytes = ?body front @ (write_vlong (length lst) @ lst @ [])"
        by (simp add: in1_def)
      from layout_nth [OF i1 d1', of sn "level_step s0 sn (L - 1)"] obtain b rest where
        b: "layout bytes h sn (level_step s0 sn (L - 1)) front ! i =
            level_new \<lparr>data = bytes, ptr = b\<rparr> (level_step s0 sn (L - 1) div sn ^ i) b
              (b + length (front ! i))"
        and dr: "drop b bytes = front ! i @ rest" by blast
      from i1 have fi: "front ! i = ls ! i" by (simp add: split nth_append)
      from i have "level_step s0 sn (L - 1) div sn ^ i = level_step s0 sn (L - 1 - i)"
        by (intro level_step_div [OF sn]) simp
      with b have b': "layout bytes h sn (level_step s0 sn (L - 1)) front ! i =
            level_new \<lparr>data = bytes, ptr = b\<rparr> (level_step s0 sn (L - 1 - i)) b
              (b + length (ls ! i))" by (simp add: fi)
      have "r_levels r ! i = layout bytes h sn (level_step s0 sn (L - 1)) front ! i"
        using i1 by (simp add: r_def nth_append length_layout)
      with b' have "r_levels r ! i =
          (level_new \<lparr>data = bytes, ptr = b\<rparr> (level_step s0 sn (L - 1 - i)) b (b + length (ls ! i)))
             \<lparr>child := 0\<rparr>" by (simp add: level_new_def)
      with dr fi False show ?thesis by auto
    qed
  qed
  from load f lv show ?thesis by blast
qed

lemma load_written:
  assumes s0: "0 < s0" and sn: "0 < sn" and n: "s0 < length ids" and small: "length ids < 2 ^ 53"
    and L: "L = level_count s0 sn requested (length ids)"
    and bytes: "bytes = write_vint L @ concat (map (\<lambda>l. write_vlong (length l) @ l)
        (rev (map (\<lambda>i. level_buffer s0 sn ids i (length ids)) [0..<L])))"
    and sz: "length bytes < 2 ^ 63"
  shows "\<exists>r. load_skip_list s0 sn bytes = Inr r \<and> r_skip_0 r = s0 \<and> r_read r = read_doc
     \<and> length (r_levels r) = L
     \<and> (\<forall>i<L. fresh_level s0 sn ids (L - 1 - i) (r_levels r ! i))"
proof -
  define ls where "ls = rev (map (\<lambda>i. level_buffer s0 sn ids i (length ids)) [0..<L])"
  have bytes': "bytes = write_vint L @ concat (map (\<lambda>l. write_vlong (length l) @ l) ls)"
    by (simp add: bytes ls_def)
  from load_written_levels [OF s0 sn n small L ls_def bytes' sz] obtain r where
    load: "load_skip_list s0 sn bytes = Inr r" and f: "r_skip_0 r = s0" "r_read r = read_doc"
      "length (r_levels r) = L"
    and lv: "\<forall>i<L. \<exists>b rest. r_levels r ! i =
           (level_new \<lparr>data = bytes, ptr = b\<rparr> (level_step s0 sn (L - 1 - i)) b (b + length (ls ! i)))
             \<lparr>child := (if Suc i = L then UNDEFINED else 0)\<rparr>
           \<and> drop b bytes = ls ! i @ rest"
    by blast
  have nth: "\<And>i. i < L \<Longrightarrow> ls ! i = level_buffer s0 sn ids (L - 1 - i) (length ids)"
    by (simp add: ls_def rev_nth)
  note pos = level_step_pos [OF s0 sn]
  have stp: "\<And>j. j < L \<Longrightarrow> level_step s0 sn j \<le> length ids"
    using level_count_step [OF s0 sn n] by (simp add: L)
  have ne: "\<And>i. i < L \<Longrightarrow> ls ! i \<noteq> []"
    using level_buffer_nonempty [OF pos stp] by (simp add: nth)
  have bound: "\<And>i b rest. i < L \<Longrightarrow> drop b bytes = ls ! i @ rest \<Longrightarrow> b + length (ls ! i) < 2 ^ 63"
  proof -
    fix i b rest assume "i < L" and dr: "drop b bytes = ls ! i @ rest"
    from drop_length_le [OF dr ne [OF \<open>i < L\<close>]] sz show "b + length (ls ! i) < 2 ^ 63" by simp
  qed
  have "\<forall>i<L. fresh_level s0 sn ids (L - 1 - i) (r_levels r ! i)"
  proof (intro allI impI)
    fix i assume i: "i < L"
    define j where "j = L - 1 - i"
    from i have jL: "j < L" by (simp add: j_def)
    from lv i obtain b rest where
      lvl: "r_levels r ! i =
           (level_new \<lparr>data = bytes, ptr = b\<rparr> (level_step s0 sn j) b (b + length (ls ! i)))
             \<lparr>child := (if Suc i = L then UNDEFINED else 0)\<rparr>"
      and dr: "drop b bytes = ls ! i @ rest" unfolding j_def by blast
    from nth [OF i] have li: "ls ! i = level_buffer s0 sn ids j (length ids)" by (simp add: j_def)
    from bound [OF i dr] have e: "b + length (ls ! i) < 2 ^ 64" by simp
    have st: "Suc (length ids div level_step s0 sn j) * level_step s0 sn j < 2 ^ 64"
      by (rule level_span_bound [OF pos stp [OF jL] small])
    have ch: "list_all (\<lambda>e. snd e < UNDEFINED) (entries s0 sn ids j)"
    proof (cases j)
      case 0
      then show ?thesis using entries_child_0 [of _ s0 sn ids]
        by (auto simp: list_all_iff UNDEFINED_def)
    next
      case (Suc j')
      with i have i1: "Suc i < L" and j': "j' = L - 1 - Suc i" by (simp_all add: j_def)
      from lv i1 obtain b1 rest1 where dr1: "drop b1 bytes = ls ! Suc i @ rest1" by blast
      from bound [OF i1 dr1] have "length (ls ! Suc i) < 2 ^ 63" by simp
      with nth [OF i1] j' have lb: "length (level_buffer s0 sn ids j' (length ids)) < 2 ^ 63"
        by simp
      show ?thesis unfolding list_all_length
      proof (intro allI impI)
        fix k assume "k < length (entries s0 sn ids j)"
        with Suc have k: "k < length (entries s0 sn ids (Suc j'))" by simp
        from entries_child_bound [OF s0 sn k] lb
        have "snd (entries s0 sn ids (Suc j') ! k) < 2 ^ 63" by simp
        then show "snd (entries s0 sn ids j ! k) < UNDEFINED"
          using Suc by (simp add: UNDEFINED_def)
      qed
    qed
    have c: "(if Suc i = L then UNDEFINED else 0) = (if 0 < j then 0 else UNDEFINED)"
      using i by (auto simp: j_def)
    have "fresh_level s0 sn ids j (r_levels r ! i)"
      unfolding lvl
      by (rule fresh_level_intro [OF _ _ e st ch c]) (use dr li in simp_all)
    then show "fresh_level s0 sn ids (L - 1 - i) (r_levels r ! i)" by (simp add: j_def)
  qed
  with load f show ?thesis by blast
qed


section \<open>The descent through the levels\<close>

lemma child_index:
  assumes s0: "0 < s0" and sn: "0 < sn" and k: "0 < k" "k \<le> length ids div level_step s0 sn (Suc j)"
  shows "0 < k * sn" and "k * sn \<le> length ids div level_step s0 sn j"
    and "k * sn * level_step s0 sn j = k * level_step s0 sn (Suc j)"
    and "fst (entries s0 sn ids j ! (k * sn - 1)) = ids ! (k * level_step s0 sn (Suc j) - 1)"
    and "snd (entries s0 sn ids (Suc j) ! (k - 1)) =
         offset (0 < j) (entries s0 sn ids j) (k * sn - 1)
           + length (write_vlong (unat (fst (entries s0 sn ids j ! (k * sn - 1)))))"
proof -
  note pos = level_step_pos [OF s0 sn]
  from k(1) sn show p: "0 < k * sn" by simp
  show eq: "k * sn * level_step s0 sn j = k * level_step s0 sn (Suc j)"
    by (simp only: level_step_Suc mult.assoc)
  from k(2) have "k * level_step s0 sn (Suc j) \<le> length ids"
    using pos [of "Suc j"] by (simp add: less_eq_div_iff_mult_less_eq)
  then have "k * sn * level_step s0 sn j \<le> length ids" by (simp only: eq)
  then show le: "k * sn \<le> length ids div level_step s0 sn j"
    using pos [of j] by (simp add: less_eq_div_iff_mult_less_eq)
  from p have sm: "Suc (k * sn - 1) = k * sn" by simp
  from p le have "k * sn - 1 < length ids div level_step s0 sn j" by linarith
  from entries_fst [OF this]
  show f: "fst (entries s0 sn ids j ! (k * sn - 1)) = ids ! (k * level_step s0 sn (Suc j) - 1)"
    by (simp only: sm eq)
  from k have k1: "k - 1 < length ids div level_step s0 sn (Suc j)" and sk: "Suc (k - 1) = k"
    by simp_all
  from entries_snd [OF k1]
  show "snd (entries s0 sn ids (Suc j) ! (k - 1)) =
         offset (0 < j) (entries s0 sn ids j) (k * sn - 1)
           + length (write_vlong (unat (fst (entries s0 sn ids j ! (k * sn - 1)))))"
    by (simp only: sk f)
qed

lemma sorted_below:
  fixes ids :: "doc_id_t list"
  assumes "sorted ids" and "m < length ids" and "ids ! m < target" and "i \<le> m"
  shows "ids ! i < target"
proof -
  from assms(1,4,2) have "ids ! i \<le> ids ! m" by (rule sorted_nth_mono)
  from this assms(3) show ?thesis by (rule le_less_trans)
qed

lemma descent:
  assumes s0: "0 < s0" and sn: "0 < sn" and sorted: "sorted ids" and target: "target \<noteq> 0"
  shows "lv \<noteq> [] \<Longrightarrow>
     \<forall>i<length lv. fresh_level s0 sn ids (length lv - 1 - i) (lv ! i) \<Longrightarrow>
     (k0 = 0 \<and> cp = 0 \<and> c = 0) \<or>
       (0 < k0 \<and> k0 \<le> length ids div level_step s0 sn (length lv - 1)
        \<and> cp = offset (0 < length lv - 1) (entries s0 sn ids (length lv - 1)) (k0 - 1)
            + length (write_vlong (unat (fst (entries s0 sn ids (length lv - 1) ! (k0 - 1)))))
        \<and> c = k0 * level_step s0 sn (length lv - 1)) \<Longrightarrow>
     \<forall>i<k0 * level_step s0 sn (length lv - 1). ids ! i < target \<Longrightarrow>
     \<exists>lv1 k. seek_levels read_doc target lv cp c = Some (Inr lv1) \<and> lv1 \<noteq> []
       \<and> skipped (last lv1) = Suc k * s0 \<and> k \<le> length ids div s0
       \<and> (\<forall>i<k * s0. ids ! i < target)
       \<and> (k < length ids div s0 \<longrightarrow> \<not> ids ! (Suc k * s0 - 1) < target)"
proof (induction lv arbitrary: k0 cp c)
  case Nil
  then show ?case by simp
next
  case (Cons l rest)
  define j where "j = length rest"
  define es where "es = entries s0 sn ids j"
  note pos = level_step_pos [OF s0 sn]
  have les: "length es = length ids div level_step s0 sn j" by (simp add: es_def length_entries)
  from Cons.prems(2) have "fresh_level s0 sn ids j l" by (auto simp: j_def)
  then have wf: "wf_level (0 < j) es l" and fr: "ptr (stream l) = lbegin l" "skipped l = 0"
      "doc l = doc_invalid" "0 < j \<longrightarrow> child l = 0" and st: "step l = level_step s0 sn j"
    by (simp_all add: fresh_level_def es_def)
  from Cons.prems(3) have carried: "(k0 = 0 \<and> cp = 0 \<and> c = 0) \<or>
       (0 < k0 \<and> k0 \<le> length es
        \<and> cp = offset (0 < j) es (k0 - 1) + length (write_vlong (unat (fst (es ! (k0 - 1)))))
        \<and> c = k0 * step l)"
    by (simp add: j_def es_def st length_entries)
  from Cons.prems(4) have inv: "\<forall>i<k0 * level_step s0 sn j. ids ! i < target"
    by (simp add: j_def)
  from seek_level_entry [OF wf fr target carried, of "length rest"] obtain k1 l1 cv where
    sl: "seek_level read_doc (length rest) target l cp c = Some (Inr (l1, cv, k1 * step l))"
    and k01: "k0 \<le> k1" and k1: "k1 \<le> length es"
    and lo: "\<forall>i. k0 \<le> i \<and> i < k1 \<longrightarrow> fst (es ! i) < target"
    and hi: "k1 < length es \<longrightarrow> \<not> fst (es ! k1) < target"
    and sk: "skipped l1 = Suc k1 * step l"
    and cv: "cv = (if 0 < j then (if k1 = 0 then 0 else snd (es ! (k1 - 1))) else UNDEFINED)"
    by blast
  have inv1: "\<forall>i<k1 * level_step s0 sn j. ids ! i < target"
  proof (cases "k1 = k0")
    case True
    with inv show ?thesis by simp
  next
    case False
    with k01 have lt: "k0 < k1" by simp
    then have k1p: "0 < k1" by simp
    with k1 have km: "k1 - 1 < length ids div level_step s0 sn j" by (simp add: les)
    from lt lo have "fst (es ! (k1 - 1)) < target" by simp
    with entries_fst [OF km] k1p have b: "ids ! (k1 * level_step s0 sn j - 1) < target"
      by (simp add: es_def)
    from k1 have "k1 * level_step s0 sn j \<le> length ids"
      using pos [of j] by (simp add: les less_eq_div_iff_mult_less_eq)
    moreover from k1p pos [of j] have "0 < k1 * level_step s0 sn j" by simp
    ultimately have m: "k1 * level_step s0 sn j - 1 < length ids" by linarith
    show ?thesis
    proof (intro allI impI)
      fix i assume "i < k1 * level_step s0 sn j"
      then have "i \<le> k1 * level_step s0 sn j - 1" by simp
      from sorted_below [OF sorted m b this] show "ids ! i < target" .
    qed
  qed
  show ?case
  proof (cases rest)
    case Nil
    then have j0: "j = 0" by (simp add: j_def)
    then have st0: "step l = s0" by (simp add: st level_step_def)
    have "seek_levels read_doc target (l # rest) cp c = Some (Inr [l1])"
      using sl Nil by simp
    moreover have "skipped (last [l1]) = Suc k1 * s0" using sk st0 by simp
    moreover have "k1 \<le> length ids div s0" using k1 les j0 by (simp add: level_step_def)
    moreover have "\<forall>i<k1 * s0. ids ! i < target" using inv1 j0 by (simp add: level_step_def)
    moreover have "k1 < length ids div s0 \<longrightarrow> \<not> ids ! (Suc k1 * s0 - 1) < target"
    proof
      assume a: "k1 < length ids div s0"
      then have "k1 < length ids div level_step s0 sn 0" by (simp add: level_step_def)
      from entries_fst [OF this] have "fst (es ! k1) = ids ! (Suc k1 * s0 - 1)"
        by (simp add: es_def j0 level_step_def)
      moreover from a hi have "\<not> fst (es ! k1) < target" by (simp add: les j0 level_step_def)
      ultimately show "\<not> ids ! (Suc k1 * s0 - 1) < target" by simp
    qed
    ultimately show ?thesis by blast
  next
    case (Cons l' rest')
    then have rne: "rest \<noteq> []" by simp
    then obtain j' where j: "j = Suc j'" by (cases j) (auto simp: j_def)
    have j': "length rest - 1 = j'" using j by (simp add: j_def)
    have fresh': "\<forall>i<length rest. fresh_level s0 sn ids (length rest - 1 - i) (rest ! i)"
    proof (intro allI impI)
      fix i assume "i < length rest"
      with Cons.prems(2) [rule_format, of "Suc i"]
      show "fresh_level s0 sn ids (length rest - 1 - i) (rest ! i)" by simp
    qed
    have cv1: "cv = (if k1 = 0 then 0 else snd (es ! (k1 - 1)))" using cv j by simp
    have carried': "(k1 * sn = 0 \<and> cv = 0 \<and> k1 * step l = 0) \<or>
       (0 < k1 * sn \<and> k1 * sn \<le> length ids div level_step s0 sn (length rest - 1)
        \<and> cv = offset (0 < length rest - 1) (entries s0 sn ids (length rest - 1)) (k1 * sn - 1)
            + length (write_vlong (unat (fst (entries s0 sn ids (length rest - 1) ! (k1 * sn - 1)))))
        \<and> k1 * step l = k1 * sn * level_step s0 sn (length rest - 1))"
    proof (cases "k1 = 0")
      case True
      with cv1 show ?thesis by simp
    next
      case False
      then have k1p: "0 < k1" by simp
      from k1 have k1le: "k1 \<le> length ids div level_step s0 sn (Suc j')" by (simp add: les j)
      note ci = child_index [OF s0 sn k1p k1le]
      have "cv = snd (entries s0 sn ids (Suc j') ! (k1 - 1))" using cv1 False by (simp add: es_def j)
      with ci(5) have "cv = offset (0 < j') (entries s0 sn ids j') (k1 * sn - 1)
            + length (write_vlong (unat (fst (entries s0 sn ids j' ! (k1 * sn - 1)))))" by simp
      moreover have "k1 * step l = k1 * sn * level_step s0 sn j'" unfolding st j ci(3) ..
      ultimately show ?thesis using ci(1) ci(2) unfolding j' by blast
    qed
    have "k1 * sn * level_step s0 sn j' = k1 * level_step s0 sn j"
      by (simp only: j level_step_Suc mult.assoc)
    then have inv': "\<forall>i<k1 * sn * level_step s0 sn (length rest - 1). ids ! i < target"
      unfolding j' using inv1 by (simp only:)
    from Cons.IH [OF rne fresh' carried' inv'] obtain lv1 k where
      r: "seek_levels read_doc target rest cv (k1 * step l) = Some (Inr lv1)" "lv1 \<noteq> []"
        "skipped (last lv1) = Suc k * s0" "k \<le> length ids div s0"
        "\<forall>i<k * s0. ids ! i < target"
        "k < length ids div s0 \<longrightarrow> \<not> ids ! (Suc k * s0 - 1) < target"
      by blast
    have "seek_levels read_doc target (l # rest) cp c = Some (Inr (l1 # lv1))"
      using sl r(1) by simp
    moreover have "skipped (last (l1 # lv1)) = Suc k * s0" using r(2) r(3) by simp
    ultimately show ?thesis using r(4) r(5) r(6) by blast
  qed
qed

lemma find_level_fresh:
  assumes "\<forall>l\<in>set lv. doc l = doc_invalid"
  shows "find_level lv target = Inr 0"
proof -
  define ds where "ds = map doc (rev lv)"
  have z: "\<forall>i<length ds. ds ! i = 0"
    using assms by (simp add: ds_def doc_invalid_def rev_nth)
  then have srt: "sorted ds" by (simp add: sorted_iff_nth_mono)
  define u where "u = upper_bound target ds 0 (length ds)"
  have p2: "0 + length ds \<le> length ds" by simp
  have p3: "\<forall>i<0. ds ! i \<le> target" by simp
  have p4: "\<forall>i. 0 + length ds \<le> i \<and> i < length ds \<longrightarrow> target < ds ! i" by auto
  from upper_bound_partition [OF srt p2 p3 p4]
  have u: "u \<le> length ds" "\<forall>i. u \<le> i \<and> i < length ds \<longrightarrow> target < ds ! i"
    unfolding u_def by blast+
  have "u = length ds"
  proof (rule ccontr)
    assume "u \<noteq> length ds"
    with u(1) have "u < length ds" by simp
    with u(2) z have "target < 0" by auto
    then show False by simp
  qed
  with srt show ?thesis by (simp add: find_level_def ds_def u_def Let_def)
qed

lemma seek_levels_nothing:
  "\<forall>l\<in>set ls. \<not> doc l < target \<Longrightarrow> seek_levels rd target ls c s = Some (Inr ls)"
  by (induction ls arbitrary: c s) (simp_all add: seek_level_def)

lemma seek_fresh:
  assumes s0: "0 < s0" and sn: "0 < sn" and sorted: "sorted ids" and small: "length ids < 2 ^ 53"
    and n: "s0 < length ids"
    and r: "r_skip_0 r = s0" "r_read r = read_doc" "r_levels r \<noteq> []"
    and fresh: "\<forall>i<length (r_levels r).
        fresh_level s0 sn ids (length (r_levels r) - 1 - i) (r_levels r ! i)"
  shows "\<exists>k r1. seek r target = Some (Inr (k * s0, r1)) \<and> k \<le> length ids div s0
       \<and> (\<forall>i<k * s0. ids ! i < target)
       \<and> (k < length ids div s0 \<longrightarrow> \<not> ids ! (Suc k * s0 - 1) < target)"
proof -
  have inv: "\<forall>l\<in>set (r_levels r). doc l = doc_invalid \<and> skipped l = 0"
  proof
    fix l assume "l \<in> set (r_levels r)"
    then obtain i where "i < length (r_levels r)" "l = r_levels r ! i"
      by (auto simp: in_set_conv_nth)
    with fresh show "doc l = doc_invalid \<and> skipped l = 0" by (auto simp: fresh_level_def)
  qed
  then have fl: "find_level (r_levels r) target = Inr 0" by (intro find_level_fresh) simp
  show ?thesis
  proof (cases "target = 0")
    case True
    have "\<forall>l\<in>set (r_levels r). \<not> doc l < target" using True by simp
    from seek_levels_nothing [OF this]
    have sl: "seek_levels read_doc target (r_levels r) 0 0 = Some (Inr (r_levels r))" .
    from r(3) inv have "skipped (last (r_levels r)) = 0" by simp
    with sl fl r have "seek r target = Some (Inr (0 * s0, r\<lparr>r_levels := r_levels r\<rparr>))"
      by (simp add: seek_def)
    moreover have "\<not> ids ! (Suc 0 * s0 - 1) < target" using True by simp
    ultimately show ?thesis
      by (intro exI [of _ 0] exI [of _ "r\<lparr>r_levels := r_levels r\<rparr>"]) simp
  next
    case False
    have carried: "((0::nat) = 0 \<and> (0::nat) = 0 \<and> (0::nat) = 0) \<or>
       (0 < (0::nat) \<and> 0 \<le> length ids div level_step s0 sn (length (r_levels r) - 1)
        \<and> 0 = offset (0 < length (r_levels r) - 1) (entries s0 sn ids (length (r_levels r) - 1)) (0 - 1)
            + length (write_vlong (unat (fst (entries s0 sn ids (length (r_levels r) - 1) ! (0 - 1)))))
        \<and> 0 = 0 * level_step s0 sn (length (r_levels r) - 1))" by simp
    have inv0: "\<forall>i<0 * level_step s0 sn (length (r_levels r) - 1). ids ! i < target" by simp
    from descent [OF s0 sn sorted False r(3) fresh carried inv0] obtain lv1 k where
      d: "seek_levels read_doc target (r_levels r) 0 0 = Some (Inr lv1)" "lv1 \<noteq> []"
        "skipped (last lv1) = Suc k * s0" "k \<le> length ids div s0"
        "\<forall>i<k * s0. ids ! i < target"
        "k < length ids div s0 \<longrightarrow> \<not> ids ! (Suc k * s0 - 1) < target"
      by blast
    have "k * s0 \<le> length ids div s0 * s0" using d(4) by simp
    also have "\<dots> \<le> length ids" by simp
    finally have "Suc k * s0 \<le> length ids + length ids" using n by simp
    also have "\<dots> < 2 ^ 53 + 2 ^ 53" using small by simp
    also have "\<dots> < (2 :: nat) ^ 64" by simp
    finally have "sub64 (Suc k * s0) s0 = Suc k * s0 - s0" by (intro sub64_minus) simp_all
    then have sub: "sub64 (Suc k * s0) s0 = k * s0" by simp
    from s0 have nz: "Suc k * s0 \<noteq> 0" by simp
    have "seek r target = Some (Inr (k * s0, r\<lparr>r_levels := lv1\<rparr>))"
      using fl r d(1) d(3) sub nz by (simp add: seek_def Let_def)
    with d(4) d(5) d(6) show ?thesis by blast
  qed
qed


section \<open>The round trip\<close>

lemma vencode_length: "0 < k \<Longrightarrow> v < 128 ^ k \<Longrightarrow> length (vencode v) \<le> k"
proof (induction k arbitrary: v)
  case 0
  then show ?case by simp
next
  case (Suc k)
  show ?case
  proof (cases "v < 128")
    case True
    then show ?thesis by (simp add: vencode.simps)
  next
    case False
    with Suc.prems(2) have k: "0 < k" by (cases k) simp_all
    from Suc.prems(2) have "v div 128 < 128 ^ k" by (simp add: less_mult_imp_div_less mult.commute)
    from Suc.IH [OF k this] False show ?thesis by (subst vencode.simps) simp
  qed
qed

lemma write_vlong_length: "length (write_vlong v) \<le> 10"
proof -
  have "v mod 2 ^ 64 < (2 :: nat) ^ 64" by simp
  also have "\<dots> < 128 ^ 10" by simp
  finally show ?thesis unfolding write_vlong_def by (intro vencode_length) simp_all
qed

lemma write_vint_length: "length (write_vint v) \<le> 10"
proof -
  have "v mod 2 ^ 32 < (2 :: nat) ^ 32" by simp
  also have "\<dots> < 128 ^ 10" by simp
  finally show ?thesis unfolding write_vint_def by (intro vencode_length) simp_all
qed

lemma enc_length: "length (enc hc e) \<le> 20"
  using write_vlong_length [of "unat (fst e)"] write_vlong_length [of "snd e"]
  by (simp add: enc_def)

lemma concat_length_bound:
  "\<forall>x\<in>set xs. length (f x) \<le> c \<Longrightarrow> length (concat (map f xs)) \<le> c * length xs"
  by (induction xs) (simp_all add: add_mono)

lemma level_buffer_length: "length (level_buffer s0 sn ids j (length ids)) \<le> 20 * length ids"
proof -
  have "length (level_buffer s0 sn ids j (length ids)) \<le> 20 * length (entries s0 sn ids j)"
    unfolding level_buffer_full by (intro concat_length_bound) (simp add: enc_length)
  also have "\<dots> \<le> 20 * length ids" by (simp add: length_entries)
  finally show ?thesis .
qed

lemma written_length:
  assumes small: "length ids < 2 ^ 52"
    and L: "L = level_count s0 sn requested (length ids)"
    and bytes: "bytes = write_vint L @ concat (map (\<lambda>l. write_vlong (length l) @ l)
        (rev (map (\<lambda>i. level_buffer s0 sn ids i (length ids)) [0..<L])))"
  shows "length bytes < 2 ^ 63"
proof -
  define ls where "ls = rev (map (\<lambda>i. level_buffer s0 sn ids i (length ids)) [0..<L])"
  define N where "N = length ids"
  from small have "length ids < 2 ^ 53" by simp
  from level_count_bound [OF this, of s0 sn requested] have L54: "L \<le> 53" by (simp add: L)
  have len: "length ls = L" by (simp add: ls_def)
  have "\<forall>l\<in>set ls. length (write_vlong (length l) @ l) \<le> 10 + 20 * N"
  proof
    fix l assume "l \<in> set ls"
    then obtain i where "l = level_buffer s0 sn ids i (length ids)" by (auto simp: ls_def)
    with level_buffer_length [of s0 sn ids i] write_vlong_length [of "length l"]
    show "length (write_vlong (length l) @ l) \<le> 10 + 20 * N" by (simp add: N_def)
  qed
  from concat_length_bound [OF this]
  have "length (concat (map (\<lambda>l. write_vlong (length l) @ l) ls)) \<le> (10 + 20 * N) * L"
    by (simp add: len)
  also have "\<dots> \<le> (10 + 20 * N) * 53" using L54 by (intro mult_le_mono2)
  finally have "length bytes \<le> 10 + (10 + 20 * N) * 53"
    using write_vint_length [of L] by (simp add: bytes ls_def)
  also have "\<dots> = 540 + 1060 * N" by simp
  also have "\<dots> < 2 ^ 63" using small by (simp add: N_def)
  finally show ?thesis .
qed

text \<open>
  C1. The round trip. With positive \<open>skip_0\<close> and \<open>skip_n\<close>, for every sorted sequence of more
  than \<open>skip_0\<close> and fewer than \<open>2 ^ 52\<close> document ids, written through the writer (prepared
  for the sequence with any requested number of levels, \<^verbatim>\<open>skip\<close> called with the running count
  after each entry, the payload of a skip point being the document just appended, then
  flushed) and loaded by a reader with the same parameters, and for every target, the first
  \<^verbatim>\<open>seek(target)\<close> returns. The skip count \<open>m\<close> it returns is a multiple of \<open>skip_0\<close>, not
  above the number of entries; all entries with index in \<open>[0, m)\<close> are strictly below the
  target, and the last entry of the next block of \<open>skip_0\<close> entries, when there is one, is
  not below the target: \<open>m\<close> never overshoots and is the largest such skip point.
\<close>

theorem round_trip_seek:
  assumes s0: "0 < skip_0" and sn: "0 < skip_n" and n: "skip_0 < length ids"
    and small: "length ids < 2 ^ 52" and sorted: "sorted ids"
  shows "\<exists>bytes r m r1. write_skip_list skip_0 skip_n requested ids = Inr bytes
     \<and> load_skip_list skip_0 skip_n bytes = Inr r
     \<and> seek r target = Some (Inr (m, r1))
     \<and> m \<le> length ids \<and> skip_0 dvd m
     \<and> (\<forall>i<m. ids ! i < target)
     \<and> (m + skip_0 \<le> length ids \<longrightarrow> target \<le> ids ! (m + skip_0 - 1))"
proof -
  define L where "L = level_count skip_0 skip_n requested (length ids)"
  define bytes where "bytes = write_vint L @ concat (map (\<lambda>l. write_vlong (length l) @ l)
        (rev (map (\<lambda>i. level_buffer skip_0 skip_n ids i (length ids)) [0..<L])))"
  from small have small53: "length ids < 2 ^ 53" by simp
  have w: "write_skip_list skip_0 skip_n requested ids = Inr bytes"
    unfolding bytes_def by (rule write_skip_list_bytes [OF s0 sn n L_def])
  note sz = written_length [OF small L_def bytes_def]
  from load_written [OF s0 sn n small53 L_def bytes_def sz] obtain r where
    load: "load_skip_list skip_0 skip_n bytes = Inr r" and r: "r_skip_0 r = skip_0"
      "r_read r = read_doc" and len: "length (r_levels r) = L"
    and fresh: "\<forall>i<L. fresh_level skip_0 skip_n ids (L - 1 - i) (r_levels r ! i)"
    by blast
  have "0 < L" by (simp add: L_def level_count_pos)
  with len have ne: "r_levels r \<noteq> []" by auto
  from fresh len have fresh': "\<forall>i<length (r_levels r).
      fresh_level skip_0 skip_n ids (length (r_levels r) - 1 - i) (r_levels r ! i)" by simp
  from seek_fresh [OF s0 sn sorted small53 n r ne fresh', of target] obtain k r1 where
    sk: "seek r target = Some (Inr (k * skip_0, r1))" and k: "k \<le> length ids div skip_0"
    and lo: "\<forall>i<k * skip_0. ids ! i < target"
    and hi: "k < length ids div skip_0 \<longrightarrow> \<not> ids ! (Suc k * skip_0 - 1) < target"
    by blast
  have "k * skip_0 \<le> length ids div skip_0 * skip_0" using k by simp
  also have "\<dots> \<le> length ids" by simp
  finally have le: "k * skip_0 \<le> length ids" .
  have mx: "k * skip_0 + skip_0 \<le> length ids \<longrightarrow> target \<le> ids ! (k * skip_0 + skip_0 - 1)"
  proof
    assume "k * skip_0 + skip_0 \<le> length ids"
    then have "Suc k * skip_0 \<le> length ids" by simp
    then have "Suc k \<le> length ids div skip_0" using s0 by (simp add: less_eq_div_iff_mult_less_eq)
    with hi have "\<not> ids ! (Suc k * skip_0 - 1) < target" by simp
    then show "target \<le> ids ! (k * skip_0 + skip_0 - 1)" by (simp add: not_less add.commute)
  qed
  from w load sk le lo mx show ?thesis by (intro exI [of _ bytes] exI [of _ r]
      exI [of _ "k * skip_0"] exI [of _ r1]) simp
qed

theorem round_trip_seek_witness:
  "write_skip_list 2 2 4 example_docs = Inr example_bytes \<and>
   load_skip_list 2 2 example_bytes = Inr example_reader \<and>
   seek example_reader 10 = Some (Inr (10, example_reader_10)) \<and>
   list_all (\<lambda>d. d < 10) (take 10 example_docs) \<and> 10 \<le> example_docs ! 11"
  using round_trip_seek [of 2 2 example_docs 4 10] example_write example_load example_seek_10
  by (simp add: example_docs_def)

text \<open>
  In the instance \<open>skip_0 = 2\<close>, \<open>skip_n = 2\<close> with the documents \<open>0..15\<close> the call \<^verbatim>\<open>seek(10)\<close>
  returns 10, not 8: the skip point written at count 10 carries document 9, which is below
  the target. And a sequence of no more than \<open>skip_0\<close> documents cannot be written at all:
  \<^verbatim>\<open>prepare\<close> allocates no level and the first \<^verbatim>\<open>skip\<close> fails its assertion.
\<close>

theorem round_trip_seek_counterexample:
  "write_skip_list 2 2 4 example_docs = Inr example_bytes \<and>
   load_skip_list 2 2 example_bytes = Inr example_reader \<and>
   seek example_reader 10 = Some (Inr (10, example_reader_10)) \<and>
   seek example_reader 10 \<noteq> Some (Inr (8, example_reader_10)) \<and>
   write_skip_list 2 2 4 [0, 1] = Inl Assertion"
proof -
  have "write_skip_list 2 2 4 [0, 1] = Inl Assertion" by (simp add: writer_eval)
  with example_write example_load example_seek_10 show ?thesis by simp
qed

end
